theory Spec2Isabelle
  imports Main "HOL-Library.Sublist"
begin

section \<open>Go string primitives used by the repository\<close>

text \<open>
  Go strings are byte sequences; they are modelled as \<open>string\<close> (a list of \<open>char\<close>).
  The functions below follow the documented behaviour of package \<open>strings\<close> for the
  calls the repository makes.
\<close>

text \<open>\<open>strings.TrimSuffix(s, suf)\<close>: \<open>s\<close> without the trailing \<open>suf\<close> when it ends with
  it, otherwise \<open>s\<close> unchanged. At most one occurrence is removed.\<close>

definition TrimSuffix :: "string \<Rightarrow> string \<Rightarrow> string" where
  "TrimSuffix s suf = (if suffix suf s then take (length s - length suf) s else s)"

text \<open>\<open>strings.Index(s, substr)\<close>: the index of the first occurrence of \<open>substr\<close> in
  \<open>s\<close>, or \<open>-1\<close> when there is none.\<close>

fun Index :: "string \<Rightarrow> string \<Rightarrow> int" where
  "Index [] substr = (if substr = [] then 0 else - 1)"
| "Index (c # cs) substr =
     (if prefix substr (c # cs) then 0
      else (let i = Index cs substr in if i < 0 then - 1 else i + 1))"

text \<open>Go's slice expressions \<open>s[i:]\<close> and \<open>s[:i]\<close> for an index that is in range.\<close>

definition slice_from :: "string \<Rightarrow> int \<Rightarrow> string" where
  "slice_from s i = drop (nat i) s"

definition slice_to :: "string \<Rightarrow> int \<Rightarrow> string" where
  "slice_to s i = take (nat i) s"

text \<open>\<open>strings.SplitN(s, sep, n)\<close> for a non-empty separator and \<open>n \<ge> 0\<close>: at most \<open>n\<close>
  pieces, the last one being the unsplit remainder; \<open>n = 0\<close> gives no piece at all.
  \<open>genSplit\<close> is the loop of the library: it cuts at most \<open>k\<close> times.\<close>

fun genSplit :: "string \<Rightarrow> string \<Rightarrow> nat \<Rightarrow> string list" where
  "genSplit s sep 0 = [s]"
| "genSplit s sep (Suc k) =
     (let m = Index s sep in
      if m < 0 then [s]
      else slice_to s m # genSplit (slice_from s (m + int (length sep))) sep k)"

definition SplitN :: "string \<Rightarrow> string \<Rightarrow> nat \<Rightarrow> string list" where
  "SplitN s sep n = (if n = 0 then [] else genSplit s sep (n - 1))"


section \<open>Package dns: SplitHostname\<close>

text \<open>
  \<^verbatim>\<open>func SplitHostname(fqdn string) (hostname, domain string) {
      fqdn = strings.TrimSuffix(fqdn, ".")
      parts := strings.SplitN(fqdn, ".", 2)
      if len(parts) < 2 { return fqdn, "" }
      return parts[0], parts[1]
  }\<close>
  Both index reads are guarded by the length test, so they are in range.
\<close>

definition SplitHostname :: "string \<Rightarrow> string \<times> string" where
  "SplitHostname fqdn =
     (let fqdn' = TrimSuffix fqdn ''.'';
          parts = SplitN fqdn' ''.'' 2
      in if length parts < 2 then (fqdn', '''') else (parts ! 0, parts ! 1))"


section \<open>Package config: DomainMap.LookupIP\<close>

text \<open>The field \<open>entries map[string]string\<close> is a partial map; \<open>ip, ok := entries[h]\<close>
  is the lookup \<open>entries h\<close>, with \<open>None\<close> for \<open>ok = false\<close>.\<close>

type_synonym DomainMap = "string \<rightharpoonup> string"

text \<open>
  The loop \<^verbatim>\<open>for h := hostname; h != ""; { ... }\<close> of \<open>LookupIP\<close>, as a recursive
  function of the loop variable. It returns the pair \<open>(ip, ok)\<close>.
\<close>

function LookupIP_loop :: "DomainMap \<Rightarrow> string \<Rightarrow> string \<times> bool" where
  "LookupIP_loop entries h =
     (if h = [] then ('''', False)
      else (case entries h of
              Some ip \<Rightarrow> (ip, True)
            | None \<Rightarrow>
                (let idx = Index h ''.'' in
                 if idx < 0 then ('''', False)
                 else (case entries (''*.'' @ slice_from h (idx + 1)) of
                         Some ip \<Rightarrow> (ip, True)
                       | None \<Rightarrow> LookupIP_loop entries (slice_from h (idx + 1))))))"
  by pat_completeness auto
termination
  by (relation "measure (\<lambda>(entries, h). length h)") (auto simp: slice_from_def)

declare LookupIP_loop.simps [simp del]

definition LookupIP :: "DomainMap \<Rightarrow> string \<Rightarrow> string \<times> bool" where
  "LookupIP entries hostname = LookupIP_loop entries (TrimSuffix hostname ''.'')"


section \<open>Errors\<close>

text \<open>A Go \<open>error\<close> value: either an error with a message, or an error built by
  \<^verbatim>\<open>fmt.Errorf("<context>: %w", err)\<close>, which carries its context and wraps its cause.\<close>

datatype err = Err string | Wrapf string err

text \<open>\<open>errors.Unwrap\<close>: the wrapped cause, if any.\<close>

fun Unwrap :: "err \<Rightarrow> err option" where
  "Unwrap (Err msg) = None"
| "Unwrap (Wrapf ctx e) = Some e"


section \<open>Package dns: Record and the Provider interface\<close>

text \<open>\<open>Meta map[string]string\<close> is an association list; a \<open>nil\<close> map reads like the empty one.\<close>

record Record =
  Hostname :: string
  Type :: string
  Value :: string
  TTL :: int
  Meta :: "(string \<times> string) list"

text \<open>
  The interface \<open>Provider\<close>: five methods acting on the state \<open>'b\<close> of a DNS backend.
  A method returning \<open>error\<close> yields \<open>None\<close> for \<open>nil\<close>; \<open>Exists\<close> returns
  \<open>(bool, error)\<close>, modelled as a sum with the error on the left.
\<close>

record 'b Provider =
  Exists :: "string \<Rightarrow> string \<Rightarrow> 'b \<Rightarrow> (err + bool) \<times> 'b"
  Create :: "Record \<Rightarrow> 'b \<Rightarrow> err option \<times> 'b"
  Update :: "Record \<Rightarrow> 'b \<Rightarrow> err option \<times> 'b"
  Delete :: "string \<Rightarrow> string \<Rightarrow> 'b \<Rightarrow> err option \<times> 'b"
  Upsert :: "Record \<Rightarrow> 'b \<Rightarrow> err option \<times> 'b"


section \<open>Package opnsense: the Unbound host-override provider\<close>

text \<open>
  The provider talks to the OPNsense API over HTTP. \<open>client_Do\<close> is the HTTP client
  together with the server behind it: given a request it answers with a transport
  error or a response, and may change the backend state \<open>'b\<close>. \<open>json.Marshal\<close> of a
  request body, \<open>http.NewRequestWithContext\<close> (which refuses a bad method or URL), JSON
  decoding of response bodies and \<open>strings.EqualFold\<close> are library functions; they are
  fields of the provider so that every result holds for any behaviour of theirs.
  Formatted numbers in error messages are left out of the text.
\<close>

datatype req_body = NoBody | EmptyObject | HostBody "(string \<times> string) list"

record request =
  req_Method :: string
  req_URL :: string
  req_Body :: "string option"
  req_BasicAuth :: "string \<times> string"
  req_ContentType :: "string option"

record response =
  StatusCode :: int
  Body :: string

record hostRow =
  row_UUID :: string
  row_Enabled :: string
  row_Hostname :: string
  row_Domain :: string
  row_RR :: string
  row_Server :: string

record 'b opnsense =
  baseURL :: string
  apiKey :: string
  apiSecret :: string
  marshal_body :: "req_body \<Rightarrow> err + string"
  NewRequest :: "string \<Rightarrow> string \<Rightarrow> err option"
  client_Do :: "request \<Rightarrow> 'b \<Rightarrow> (err + response) \<times> 'b"
  decode_search :: "string \<Rightarrow> err + hostRow list"
  decode_status :: "string \<Rightarrow> err + string"
  decode_add :: "string \<Rightarrow> err + string \<times> string"
  decode_result :: "string \<Rightarrow> err + string"
  EqualFold :: "string \<Rightarrow> string \<Rightarrow> bool"

definition StatusOK :: int where
  "StatusOK = 200"

text \<open>\<open>strings.TrimRight(s, cutset)\<close> and \<open>strings.TrimLeft(s, cutset)\<close> for a cutset of
  ASCII characters: every trailing (leading) character of the cutset is removed.\<close>

definition TrimRight :: "string \<Rightarrow> string \<Rightarrow> string" where
  "TrimRight s cutset = rev (dropWhile (\<lambda>c. c \<in> set cutset) (rev s))"

definition TrimLeft :: "string \<Rightarrow> string \<Rightarrow> string" where
  "TrimLeft s cutset = dropWhile (\<lambda>c. c \<in> set cutset) s"

text \<open>
  \<open>doRequest\<close>: a body other than \<open>nil\<close> is marshalled; the URL is the base URL and the
  path joined by one slash; the request is built, given the basic-auth credentials and,
  when it has a body, the JSON content type; then it is sent. Each of the three
  failures (marshalling, building, sending) is returned wrapped under its own context,
  and only sending can change the backend state.
\<close>

definition doRequest ::
  "'b opnsense \<Rightarrow> string \<Rightarrow> string \<Rightarrow> req_body \<Rightarrow> 'b \<Rightarrow> (err + response) \<times> 'b" where
  "doRequest p method path body b =
     (case (if body \<noteq> NoBody
            then (case marshal_body p body of Inl e \<Rightarrow> Inl e | Inr data \<Rightarrow> Inr (Some data))
            else Inr None) of
        Inl e \<Rightarrow> (Inl (Wrapf ''opnsense: marshal request body'' e), b)
      | Inr bodyReader \<Rightarrow>
          (let url = TrimRight (baseURL p) ''/'' @ ''/'' @ TrimLeft path ''/'' in
           case NewRequest p method url of
             Some e \<Rightarrow> (Inl (Wrapf ''opnsense: build request'' e), b)
           | None \<Rightarrow>
               (case client_Do p
                       \<lparr>req_Method = method, req_URL = url, req_Body = bodyReader,
                        req_BasicAuth = (apiKey p, apiSecret p),
                        req_ContentType =
                          (if body \<noteq> NoBody then Some ''application/json'' else None)\<rparr> b of
                  (Inl e, b') \<Rightarrow> (Inl (Wrapf (''opnsense: '' @ method @ '' '' @ path) e), b')
                | (Inr resp, b') \<Rightarrow> (Inr resp, b'))))"

definition reconfigure :: "'b opnsense \<Rightarrow> 'b \<Rightarrow> err option \<times> 'b" where
  "reconfigure p b =
     (case doRequest p ''POST'' ''unbound/service/reconfigure'' EmptyObject b of
        (Inl e, b') \<Rightarrow> (Some (Wrapf ''opnsense: reconfigure'' e), b')
      | (Inr resp, b') \<Rightarrow>
          if StatusCode resp \<noteq> StatusOK
          then (Some (Err ''opnsense: reconfigure returned status''), b')
          else (case decode_status p (Body resp) of
                  Inl e \<Rightarrow> (Some (Wrapf ''opnsense: decode reconfigure response'' e), b')
                | Inr status \<Rightarrow> (None, b')))"

text \<open>The loop of \<open>findOverride\<close> over the rows of the search response: the UUID of
  the first row whose hostname, domain and record type all match, or the empty string.\<close>

fun find_row ::
  "(string \<Rightarrow> string \<Rightarrow> bool) \<Rightarrow> hostRow list \<Rightarrow> string \<Rightarrow> string \<Rightarrow> string \<Rightarrow> string" where
  "find_row eqf [] host domain recordType = ''''"
| "find_row eqf (row # rows) host domain recordType =
     (if eqf (row_Hostname row) host \<and> eqf (row_Domain row) domain \<and>
         eqf (row_RR row) recordType
      then row_UUID row
      else find_row eqf rows host domain recordType)"

definition findOverride ::
  "'b opnsense \<Rightarrow> string \<Rightarrow> string \<Rightarrow> 'b \<Rightarrow> (err + string) \<times> 'b" where
  "findOverride p fqdn recordType b =
     (case doRequest p ''GET'' ''unbound/settings/searchHostOverride'' NoBody b of
        (Inl e, b') \<Rightarrow> (Inl e, b')
      | (Inr resp, b') \<Rightarrow>
          if StatusCode resp \<noteq> StatusOK
          then (Inl (Err ''opnsense: searchHostOverride returned status''), b')
          else (case decode_search p (Body resp) of
                  Inl e \<Rightarrow> (Inl (Wrapf ''opnsense: decode search response'' e), b')
                | Inr rows \<Rightarrow>
                    (case SplitHostname fqdn of
                       (host, domain) \<Rightarrow>
                         (Inr (find_row (EqualFold p) rows host domain recordType), b'))))"

text \<open>\<open>buildHostBody\<close>: the fields of the JSON object \<open>host\<close> sent to add or set an
  override. A missing \<open>description\<close> reads as the empty string.\<close>

definition buildHostBody :: "Record \<Rightarrow> (string \<times> string) list" where
  "buildHostBody record =
     (case SplitHostname (Hostname record) of
        (host, domain) \<Rightarrow>
          [(''enabled'', ''1''),
           (''hostname'', host),
           (''domain'', domain),
           (''rr'', Type record),
           (''server'', Value record),
           (''description'',
              (case map_of (Meta record) ''description'' of None \<Rightarrow> '''' | Some d \<Rightarrow> d)),
           (''mxprio'', ''''),
           (''mx'', '''')])"

definition opnsense_Exists ::
  "'b opnsense \<Rightarrow> string \<Rightarrow> string \<Rightarrow> 'b \<Rightarrow> (err + bool) \<times> 'b" where
  "opnsense_Exists p hostname recordType b =
     (case findOverride p hostname recordType b of
        (Inl e, b') \<Rightarrow> (Inl e, b')
      | (Inr uuid, b') \<Rightarrow> (Inr (uuid \<noteq> ''''), b'))"

definition opnsense_Create :: "'b opnsense \<Rightarrow> Record \<Rightarrow> 'b \<Rightarrow> err option \<times> 'b" where
  "opnsense_Create p record b =
     (case doRequest p ''POST'' ''unbound/settings/addHostOverride''
             (HostBody (buildHostBody record)) b of
        (Inl e, b') \<Rightarrow> (Some e, b')
      | (Inr resp, b') \<Rightarrow>
          if StatusCode resp \<noteq> StatusOK
          then (Some (Err (''opnsense: addHostOverride returned status: '' @ Body resp)), b')
          else (case decode_add p (Body resp) of
                  Inl e \<Rightarrow> (Some (Wrapf ''opnsense: decode addHostOverride response'' e), b')
                | Inr (result, uuid) \<Rightarrow>
                    if result \<noteq> ''saved''
                    then (Some (Err (''opnsense: addHostOverride unexpected result: '' @ result)), b')
                    else reconfigure p b'))"

definition opnsense_Update :: "'b opnsense \<Rightarrow> Record \<Rightarrow> 'b \<Rightarrow> err option \<times> 'b" where
  "opnsense_Update p record b =
     (case findOverride p (Hostname record) (Type record) b of
        (Inl e, b') \<Rightarrow> (Some e, b')
      | (Inr uuid, b') \<Rightarrow>
          if uuid = ''''
          then (Some (Err (''opnsense: no existing override found for '' @ Hostname record @
                  ''/'' @ Type record)), b')
          else (case doRequest p ''POST'' (''unbound/settings/setHostOverride/'' @ uuid)
                       (HostBody (buildHostBody record)) b' of
                  (Inl e, b'') \<Rightarrow> (Some e, b'')
                | (Inr resp, b'') \<Rightarrow>
                    if StatusCode resp \<noteq> StatusOK
                    then (Some (Err (''opnsense: setHostOverride returned status: '' @ Body resp)),
                          b'')
                    else (case decode_result p (Body resp) of
                            Inl e \<Rightarrow>
                              (Some (Wrapf ''opnsense: decode setHostOverride response'' e), b'')
                          | Inr result \<Rightarrow>
                              if result \<noteq> ''saved''
                              then (Some (Err (''opnsense: setHostOverride unexpected result: '' @
                                      result)), b'')
                              else reconfigure p b'')))"

definition opnsense_Delete ::
  "'b opnsense \<Rightarrow> string \<Rightarrow> string \<Rightarrow> 'b \<Rightarrow> err option \<times> 'b" where
  "opnsense_Delete p hostname recordType b =
     (case findOverride p hostname recordType b of
        (Inl e, b') \<Rightarrow> (Some e, b')
      | (Inr uuid, b') \<Rightarrow>
          if uuid = ''''
          then (Some (Err (''opnsense: no existing override found for '' @ hostname @
                  ''/'' @ recordType)), b')
          else (case doRequest p ''POST'' (''unbound/settings/delHostOverride/'' @ uuid)
                       EmptyObject b' of
                  (Inl e, b'') \<Rightarrow> (Some e, b'')
                | (Inr resp, b'') \<Rightarrow>
                    if StatusCode resp \<noteq> StatusOK
                    then (Some (Err (''opnsense: delHostOverride returned status: '' @ Body resp)),
                          b'')
                    else (case decode_result p (Body resp) of
                            Inl e \<Rightarrow>
                              (Some (Wrapf ''opnsense: decode delHostOverride response'' e), b'')
                          | Inr result \<Rightarrow>
                              if result \<noteq> ''deleted''
                              then (Some (Err (''opnsense: delHostOverride unexpected result: '' @
                                      result)), b'')
                              else reconfigure p b'')))"

text \<open>
  \<^verbatim>\<open>func (p *Provider) Upsert(ctx context.Context, record dns.Record) error {
      exists, err := p.Exists(ctx, record.Hostname, record.Type)
      if err != nil { return fmt.Errorf("opnsense: upsert check: %w", err) }
      if exists { return p.Update(ctx, record) }
      return p.Create(ctx, record)
  }\<close>
\<close>

definition opnsense_Upsert :: "'b opnsense \<Rightarrow> Record \<Rightarrow> 'b \<Rightarrow> err option \<times> 'b" where
  "opnsense_Upsert p record b =
     (case opnsense_Exists p (Hostname record) (Type record) b of
        (Inl e, b') \<Rightarrow> (Some (Wrapf ''opnsense: upsert check'' e), b')
      | (Inr exists, b') \<Rightarrow>
          if exists then opnsense_Update p record b' else opnsense_Create p record b')"

text \<open>The provider as a value of the interface.\<close>

definition opnsense_Provider :: "'b opnsense \<Rightarrow> 'b Provider" where
  "opnsense_Provider p =
     \<lparr>Exists = opnsense_Exists p, Create = opnsense_Create p, Update = opnsense_Update p,
      Delete = opnsense_Delete p, Upsert = opnsense_Upsert p\<rparr>"


section \<open>Package controller: the HTTPRoute reconciler\<close>

subsection \<open>The resource and the library calls on it\<close>

definition finalizerName :: string where
  "finalizerName = ''dns.yk/cleanup''"

definition managedHostnamesAnnotation :: string where
  "managedHostnamesAnnotation = ''dns.yk/managed-hostnames''"

text \<open>
  The fields of \<open>gatewayv1.HTTPRoute\<close> that \<open>Reconcile\<close> reads or writes.
  \<open>DeletionTimestamp\<close> is a pointer to a time (\<open>None\<close> for \<open>nil\<close>; the time as an
  offset from the zero instant); \<open>Annotations\<close> is a map that may be \<open>nil\<close>;
  \<open>Hostnames\<close> is \<open>Spec.Hostnames\<close>.
\<close>

record HTTPRoute =
  DeletionTimestamp :: "int option"
  Finalizers :: "string list"
  Annotations :: "(string \<times> string) list option"
  Hostnames :: "string list"

text \<open>\<open>metav1.Time.IsZero\<close>: true for \<open>nil\<close> and for the zero instant.\<close>

definition IsZero :: "int option \<Rightarrow> bool" where
  "IsZero t = (case t of None \<Rightarrow> True | Some i \<Rightarrow> i = 0)"

text \<open>The finalizer helpers of \<open>controllerutil\<close>.\<close>

definition ContainsFinalizer :: "HTTPRoute \<Rightarrow> string \<Rightarrow> bool" where
  "ContainsFinalizer route finalizer = (finalizer \<in> set (Finalizers route))"

definition AddFinalizer :: "HTTPRoute \<Rightarrow> string \<Rightarrow> HTTPRoute" where
  "AddFinalizer route finalizer =
     (if finalizer \<in> set (Finalizers route) then route
      else route\<lparr>Finalizers := Finalizers route @ [finalizer]\<rparr>)"

definition RemoveFinalizer :: "HTTPRoute \<Rightarrow> string \<Rightarrow> HTTPRoute" where
  "RemoveFinalizer route finalizer =
     route\<lparr>Finalizers := filter (\<lambda>f. f \<noteq> finalizer) (Finalizers route)\<rparr>"

text \<open>Reading and writing a key of a map that may be \<open>nil\<close>. The write in \<open>Reconcile\<close>
  is preceded by \<^verbatim>\<open>if route.Annotations == nil { route.Annotations = make(...) }\<close>.\<close>

definition annotation_get :: "(string \<times> string) list option \<Rightarrow> string \<Rightarrow> string option" where
  "annotation_get anns k = (case anns of None \<Rightarrow> None | Some kvs \<Rightarrow> map_of kvs k)"

definition annotation_set ::
  "(string \<times> string) list option \<Rightarrow> string \<Rightarrow> string \<Rightarrow> (string \<times> string) list option" where
  "annotation_set anns k v =
     (let kvs = (case anns of None \<Rightarrow> [] | Some kvs \<Rightarrow> kvs)
      in Some ((k, v) # filter (\<lambda>kv. fst kv \<noteq> k) kvs))"

text \<open>Modelled from the spec: the helper \<open>Contains\<close> of package controller, which
  \<open>Reconcile\<close> calls and whose source is not among the files. The spec takes a hostname
  to be removed when it is absent from the current list, so \<open>Contains\<close> is membership
  in the slice.\<close>

definition Contains :: "string list \<Rightarrow> string \<Rightarrow> bool" where
  "Contains xs x = (x \<in> set xs)"

text \<open>
  A Go slice of strings that may be \<open>nil\<close>: \<open>None\<close> is the \<open>nil\<close> slice. Ranging over a
  \<open>nil\<close> slice runs no iteration. \<open>reflect.DeepEqual\<close> of such a slice and a non-\<open>nil\<close>
  slice is true exactly when the first is non-\<open>nil\<close> and has the same elements in the
  same order (a \<open>nil\<close> slice and an empty non-\<open>nil\<close> slice are not deeply equal).
\<close>

definition range_of :: "string list option \<Rightarrow> string list" where
  "range_of xs = (case xs of None \<Rightarrow> [] | Some ys \<Rightarrow> ys)"

definition DeepEqual :: "string list option \<Rightarrow> string list \<Rightarrow> bool" where
  "DeepEqual managed current = (managed = Some current)"


subsection \<open>The reconciler, its collaborators and the calls it makes\<close>

text \<open>
  Library behaviour the reconciler depends on: the two error classifiers of
  \<open>apierrors\<close>, and the JSON codec for a list of strings. \<open>json_Unmarshal\<close> gives the
  slice left in \<open>managedHostnames\<close> (which is \<open>nil\<close> before the call; the error of the
  call is discarded by the source).
\<close>

record Lib =
  IsNotFound :: "err \<Rightarrow> bool"
  IsConflict :: "err \<Rightarrow> bool"
  json_Unmarshal :: "string \<Rightarrow> string list option"
  json_Marshal :: "string list \<Rightarrow> string"

text \<open>
  The struct \<open>HTTPRouteReconciler\<close>. The API server holds a state \<open>'k\<close>:
  \<open>APIReader.Get\<close> reads the route under a key, \<open>Client.Update\<close> writes a route and may
  fail (with a conflict, among others). The DNS provider acts on its own state \<open>'b\<close>.
  The field \<open>Upsert\<close> of the struct is \<open>UpsertMode\<close> here.
\<close>

record ('b, 'k) HTTPRouteReconciler =
  Client_Update :: "HTTPRoute \<Rightarrow> 'k \<Rightarrow> err option \<times> 'k"
  APIReader_Get :: "string \<Rightarrow> 'k \<Rightarrow> err + HTTPRoute"
  DomainMap :: DomainMap
  DNS :: "'b Provider"
  UpsertMode :: bool

text \<open>
  Every call that leaves the reconciler is recorded, with whether it succeeded, in the
  order in which it is made: the calls on the DNS provider and the reads and writes of
  the resource. The world is the two external states and this record of calls.
\<close>

datatype call =
    CallExists string string
  | CallCreate Record
  | CallUpdate Record
  | CallDelete string string
  | CallUpsert Record
  | CallGet string
  | CallWrite HTTPRoute

record ('b, 'k) world =
  dns_state :: 'b
  api_state :: 'k
  calls :: "(call \<times> bool) list"

definition do_Get ::
  "('b, 'k) HTTPRouteReconciler \<Rightarrow> string \<Rightarrow> ('b, 'k) world \<Rightarrow> (err + HTTPRoute) \<times> ('b, 'k) world" where
  "do_Get r req w =
     (let res = APIReader_Get r req (api_state w)
      in (res, w\<lparr>calls := calls w @ [(CallGet req, \<not> isl res)]\<rparr>))"

definition do_Write ::
  "('b, 'k) HTTPRouteReconciler \<Rightarrow> HTTPRoute \<Rightarrow> ('b, 'k) world \<Rightarrow> err option \<times> ('b, 'k) world" where
  "do_Write r route w =
     (case Client_Update r route (api_state w) of
        (e, k') \<Rightarrow> (e, w\<lparr>api_state := k', calls := calls w @ [(CallWrite route, e = None)]\<rparr>))"

definition do_Delete ::
  "('b, 'k) HTTPRouteReconciler \<Rightarrow> string \<Rightarrow> string \<Rightarrow> ('b, 'k) world \<Rightarrow> err option \<times> ('b, 'k) world" where
  "do_Delete r hostname recordType w =
     (case Delete (DNS r) hostname recordType (dns_state w) of
        (e, b') \<Rightarrow>
          (e, w\<lparr>dns_state := b', calls := calls w @ [(CallDelete hostname recordType, e = None)]\<rparr>))"

definition do_Exists ::
  "('b, 'k) HTTPRouteReconciler \<Rightarrow> string \<Rightarrow> string \<Rightarrow> ('b, 'k) world \<Rightarrow> (err + bool) \<times> ('b, 'k) world" where
  "do_Exists r hostname recordType w =
     (case Exists (DNS r) hostname recordType (dns_state w) of
        (res, b') \<Rightarrow>
          (res, w\<lparr>dns_state := b', calls := calls w @ [(CallExists hostname recordType, \<not> isl res)]\<rparr>))"

definition do_Create ::
  "('b, 'k) HTTPRouteReconciler \<Rightarrow> Record \<Rightarrow> ('b, 'k) world \<Rightarrow> err option \<times> ('b, 'k) world" where
  "do_Create r record w =
     (case Create (DNS r) record (dns_state w) of
        (e, b') \<Rightarrow> (e, w\<lparr>dns_state := b', calls := calls w @ [(CallCreate record, e = None)]\<rparr>))"

definition do_Upsert ::
  "('b, 'k) HTTPRouteReconciler \<Rightarrow> Record \<Rightarrow> ('b, 'k) world \<Rightarrow> err option \<times> ('b, 'k) world" where
  "do_Upsert r record w =
     (case Upsert (DNS r) record (dns_state w) of
        (e, b') \<Rightarrow> (e, w\<lparr>dns_state := b', calls := calls w @ [(CallUpsert record, e = None)]\<rparr>))"


subsection \<open>Retrying a write on conflict\<close>

text \<open>
  \<open>retry.RetryOnConflict(retry.DefaultRetry, fn)\<close> of client-go: \<open>fn\<close> is run until
  it succeeds or fails with an error that is not a conflict, at most \<open>Steps\<close> times;
  when every attempt ends in a conflict the last conflict error is returned. With no
  step at all \<open>fn\<close> is never run and the result is \<open>nil\<close>. \<open>DefaultRetry\<close> has five steps.
\<close>

definition DefaultRetry_Steps :: nat where
  "DefaultRetry_Steps = 5"

fun RetryOnConflict ::
  "nat \<Rightarrow> (err \<Rightarrow> bool) \<Rightarrow> ('w \<Rightarrow> err option \<times> 'w) \<Rightarrow> 'w \<Rightarrow> err option \<times> 'w" where
  "RetryOnConflict 0 conflict fn w = (None, w)"
| "RetryOnConflict (Suc n) conflict fn w =
     (case fn w of
        (None, w') \<Rightarrow> (None, w')
      | (Some e, w') \<Rightarrow>
          if conflict e \<and> n \<noteq> 0 then RetryOnConflict n conflict fn w' else (Some e, w'))"


subsection \<open>Reconcile\<close>

text \<open>\<open>client.IgnoreNotFound\<close>.\<close>

definition IgnoreNotFound :: "Lib \<Rightarrow> err \<Rightarrow> err option" where
  "IgnoreNotFound lib e = (if IsNotFound lib e then None else Some e)"

text \<open>The loop of the deletion branch:
  \<^verbatim>\<open>for _, hostname := range route.Spec.Hostnames {
      if err := r.DNS.Delete(ctx, string(hostname), "A"); err != nil {
          return ctrl.Result{}, fmt.Errorf("deleting DNS record for %s: %w", hostname, err)
      }
  }\<close>\<close>

fun delete_hostnames ::
  "('b, 'k) HTTPRouteReconciler \<Rightarrow> string list \<Rightarrow> ('b, 'k) world \<Rightarrow> err option \<times> ('b, 'k) world" where
  "delete_hostnames r [] w = (None, w)"
| "delete_hostnames r (hostname # rest) w =
     (case do_Delete r hostname ''A'' w of
        (Some e, w') \<Rightarrow> (Some (Wrapf (''deleting DNS record for '' @ hostname) e), w')
      | (None, w') \<Rightarrow> delete_hostnames r rest w')"

text \<open>The three closures handed to \<open>RetryOnConflict\<close>: each reads the route again,
  changes the fresh copy and writes it.\<close>

definition remove_finalizer_attempt ::
  "('b, 'k) HTTPRouteReconciler \<Rightarrow> string \<Rightarrow> ('b, 'k) world \<Rightarrow> err option \<times> ('b, 'k) world" where
  "remove_finalizer_attempt r req w =
     (case do_Get r req w of
        (Inl e, w') \<Rightarrow> (Some e, w')
      | (Inr route, w') \<Rightarrow> do_Write r (RemoveFinalizer route finalizerName) w')"

definition add_finalizer_attempt ::
  "('b, 'k) HTTPRouteReconciler \<Rightarrow> string \<Rightarrow> ('b, 'k) world \<Rightarrow> err option \<times> ('b, 'k) world" where
  "add_finalizer_attempt r req w =
     (case do_Get r req w of
        (Inl e, w') \<Rightarrow> (Some e, w')
      | (Inr route, w') \<Rightarrow> do_Write r (AddFinalizer route finalizerName) w')"

definition update_annotation_attempt ::
  "Lib \<Rightarrow> ('b, 'k) HTTPRouteReconciler \<Rightarrow> string \<Rightarrow> string list \<Rightarrow> ('b, 'k) world \<Rightarrow>
     err option \<times> ('b, 'k) world" where
  "update_annotation_attempt lib r req currentHostnames w =
     (case do_Get r req w of
        (Inl e, w') \<Rightarrow> (Some e, w')
      | (Inr route, w') \<Rightarrow>
          do_Write r
            (route\<lparr>Annotations :=
               annotation_set (Annotations route) managedHostnamesAnnotation
                 (json_Marshal lib currentHostnames)\<rparr>) w')"

text \<open>The deletion branch (\<open>DeletionTimestamp\<close> is set).\<close>

definition reconcile_deleting ::
  "Lib \<Rightarrow> ('b, 'k) HTTPRouteReconciler \<Rightarrow> string \<Rightarrow> HTTPRoute \<Rightarrow> ('b, 'k) world \<Rightarrow>
     err option \<times> ('b, 'k) world" where
  "reconcile_deleting lib r req route w =
     (if ContainsFinalizer route finalizerName then
        (case delete_hostnames r (Hostnames route) w of
           (Some e, w') \<Rightarrow> (Some e, w')
         | (None, w') \<Rightarrow>
             (case RetryOnConflict DefaultRetry_Steps (IsConflict lib)
                     (remove_finalizer_attempt r req) w' of
                (Some e, w'') \<Rightarrow> (Some (Wrapf ''failed to remove finalizer'' e), w'')
              | (None, w'') \<Rightarrow> (None, w'')))
      else (None, w))"

text \<open>The branch that adds the finalizer and returns.\<close>

definition reconcile_unmanaged ::
  "Lib \<Rightarrow> ('b, 'k) HTTPRouteReconciler \<Rightarrow> string \<Rightarrow> ('b, 'k) world \<Rightarrow>
     err option \<times> ('b, 'k) world" where
  "reconcile_unmanaged lib r req w =
     (case RetryOnConflict DefaultRetry_Steps (IsConflict lib) (add_finalizer_attempt r req) w of
        (Some e, w') \<Rightarrow> (Some (Wrapf ''failed to add finalizer'' e), w')
      | (None, w') \<Rightarrow> (None, w'))"

text \<open>The first loop of the steady state:
  \<^verbatim>\<open>for _, oldHost := range managedHostnames {
      if !Contains(currentHostnames, oldHost) {
          if err := r.DNS.Delete(ctx, oldHost, "A"); err != nil {
              return ctrl.Result{}, fmt.Errorf("deleting removed DNS record for %s: %w", oldHost, err)
          }
      }
  }\<close>\<close>

fun delete_removed ::
  "('b, 'k) HTTPRouteReconciler \<Rightarrow> string list \<Rightarrow> string list \<Rightarrow> ('b, 'k) world \<Rightarrow>
     err option \<times> ('b, 'k) world" where
  "delete_removed r currentHostnames [] w = (None, w)"
| "delete_removed r currentHostnames (oldHost # rest) w =
     (if \<not> Contains currentHostnames oldHost then
        (case do_Delete r oldHost ''A'' w of
           (Some e, w') \<Rightarrow> (Some (Wrapf (''deleting removed DNS record for '' @ oldHost) e), w')
         | (None, w') \<Rightarrow> delete_removed r currentHostnames rest w')
      else delete_removed r currentHostnames rest w)"

text \<open>The second loop of the steady state, over \<open>route.Spec.Hostnames\<close>: a hostname with
  no domain mapping is skipped; in upsert mode the record is upserted; otherwise it is
  created only when \<open>Exists\<close> reports that it is missing.\<close>

definition managed_record :: "string \<Rightarrow> string \<Rightarrow> Record" where
  "managed_record hostname ip =
     \<lparr>Hostname = hostname, Type = ''A'', Value = ip, TTL = 0,
      Meta = [(''description'', ''managed by yk-dns-manager'')]\<rparr>"

fun sync_hostnames ::
  "('b, 'k) HTTPRouteReconciler \<Rightarrow> string list \<Rightarrow> ('b, 'k) world \<Rightarrow> err option \<times> ('b, 'k) world" where
  "sync_hostnames r [] w = (None, w)"
| "sync_hostnames r (hostname # rest) w =
     (case LookupIP (DomainMap r) hostname of
        (ip, ok) \<Rightarrow>
          if \<not> ok then sync_hostnames r rest w
          else if UpsertMode r then
            (case do_Upsert r (managed_record hostname ip) w of
               (Some e, w') \<Rightarrow> (Some (Wrapf (''upserting DNS record for '' @ hostname) e), w')
             | (None, w') \<Rightarrow> sync_hostnames r rest w')
          else
            (case do_Exists r hostname ''A'' w of
               (Inl e, w') \<Rightarrow> (Some (Wrapf (''checking DNS record for '' @ hostname) e), w')
             | (Inr exists, w') \<Rightarrow>
                 if exists then sync_hostnames r rest w'
                 else
                   (case do_Create r (managed_record hostname ip) w' of
                      (Some e, w'') \<Rightarrow>
                        (Some (Wrapf (''creating DNS record for '' @ hostname) e), w'')
                    | (None, w'') \<Rightarrow> sync_hostnames r rest w'')))"

text \<open>The previously persisted list, as \<open>Reconcile\<close> reads it:
  \<^verbatim>\<open>var managedHostnames []string
  if val, ok := route.Annotations[managedHostnamesAnnotation]; ok {
      _ = json.Unmarshal([]byte(val), &managedHostnames)
  }\<close>\<close>

definition read_managedHostnames :: "Lib \<Rightarrow> HTTPRoute \<Rightarrow> string list option" where
  "read_managedHostnames lib route =
     (case annotation_get (Annotations route) managedHostnamesAnnotation of
        None \<Rightarrow> None
      | Some val \<Rightarrow> json_Unmarshal lib val)"

text \<open>The steady state: the route is not being deleted and has the finalizer.\<close>

definition reconcile_active ::
  "Lib \<Rightarrow> ('b, 'k) HTTPRouteReconciler \<Rightarrow> string \<Rightarrow> HTTPRoute \<Rightarrow> ('b, 'k) world \<Rightarrow>
     err option \<times> ('b, 'k) world" where
  "reconcile_active lib r req route w =
     (let managedHostnames = read_managedHostnames lib route;
          currentHostnames = Hostnames route
      in case delete_removed r currentHostnames (range_of managedHostnames) w of
           (Some e, w1) \<Rightarrow> (Some e, w1)
         | (None, w1) \<Rightarrow>
             (case sync_hostnames r (Hostnames route) w1 of
                (Some e, w2) \<Rightarrow> (Some e, w2)
              | (None, w2) \<Rightarrow>
                  if \<not> DeepEqual managedHostnames currentHostnames then
                    (case RetryOnConflict DefaultRetry_Steps (IsConflict lib)
                            (update_annotation_attempt lib r req currentHostnames) w2 of
                       (Some e, w3) \<Rightarrow>
                         (Some (Wrapf ''failed to update managed-hostnames annotation'' e), w3)
                     | (None, w3) \<Rightarrow> (None, w3))
                  else (None, w2)))"

text \<open>\<open>Reconcile\<close>: the result is the returned error (\<open>None\<close> for \<open>nil\<close>; the
  \<open>ctrl.Result\<close> is always the empty one) and the world after the pass.\<close>

definition Reconcile ::
  "Lib \<Rightarrow> ('b, 'k) HTTPRouteReconciler \<Rightarrow> string \<Rightarrow> ('b, 'k) world \<Rightarrow>
     err option \<times> ('b, 'k) world" where
  "Reconcile lib r req w =
     (case do_Get r req w of
        (Inl e, w0) \<Rightarrow> (IgnoreNotFound lib e, w0)
      | (Inr route, w0) \<Rightarrow>
          if \<not> IsZero (DeletionTimestamp route) then reconcile_deleting lib r req route w0
          else if \<not> ContainsFinalizer route finalizerName then reconcile_unmanaged lib r req w0
          else reconcile_active lib r req route w0)"

section \<open>Notions used to state the properties\<close>

subsection \<open>Labels of a hostname and the reference priority walk\<close>

text \<open>The first label of a name is what precedes its first dot; the name with its first
  label removed is what follows that dot, and the empty name when there is no dot.\<close>

definition first_label :: "string \<Rightarrow> string" where
  "first_label h = takeWhile (\<lambda>c. c \<noteq> CHR ''.'') h"

definition drop_first_label :: "string \<Rightarrow> string" where
  "drop_first_label h = tl (dropWhile (\<lambda>c. c \<noteq> CHR ''.'') h)"

definition strip_trailing_dot :: "string \<Rightarrow> string" where
  "strip_trailing_dot s = (if s \<noteq> [] \<and> last s = CHR ''.'' then butlast s else s)"

lemma length_drop_first_label: "h \<noteq> [] \<Longrightarrow> length (drop_first_label h) < length h"
proof -
  assume "h \<noteq> []"
  have "length (dropWhile (\<lambda>c. c \<noteq> CHR ''.'') h) \<le> length h"
    by (rule length_dropWhile_le)
  with \<open>h \<noteq> []\<close> show ?thesis
    by (cases h) (auto simp: drop_first_label_def)
qed

text \<open>
  The reference priority walk, as the specification words it: at a visited name \<open>h\<close>
  the exact entry wins, then the entry of the wildcard form \<open>"*." + (h with its first
  label removed)\<close>, then the walk goes on with the first label dropped; it ends with
  not-found when no label is left, that is at the empty name.
\<close>

function reference_walk :: "DomainMap \<Rightarrow> string \<Rightarrow> string \<times> bool" where
  "reference_walk m h =
     (if h = [] then ('''', False)
      else (case m h of
              Some t \<Rightarrow> (t, True)
            | None \<Rightarrow>
                (case m (''*.'' @ drop_first_label h) of
                   Some t \<Rightarrow> (t, True)
                 | None \<Rightarrow> reference_walk m (drop_first_label h))))"
  by pat_completeness auto
termination
  by (relation "measure (\<lambda>(m, h). length h)") (auto simp: length_drop_first_label)

declare reference_walk.simps [simp del]

definition reference_lookup :: "DomainMap \<Rightarrow> string \<Rightarrow> string \<times> bool" where
  "reference_lookup m hostname = reference_walk m (strip_trailing_dot hostname)"

text \<open>
  The same walk, except that the wildcard form is consulted only at a visited name that
  still has a further label (it contains a dot); a name of a single label that has no
  exact entry ends the walk with not-found.
\<close>

function guarded_walk :: "DomainMap \<Rightarrow> string \<Rightarrow> string \<times> bool" where
  "guarded_walk m h =
     (if h = [] then ('''', False)
      else (case m h of
              Some t \<Rightarrow> (t, True)
            | None \<Rightarrow>
                if CHR ''.'' \<notin> set h then ('''', False)
                else (case m (''*.'' @ drop_first_label h) of
                        Some t \<Rightarrow> (t, True)
                      | None \<Rightarrow> guarded_walk m (drop_first_label h))))"
  by pat_completeness auto
termination
  by (relation "measure (\<lambda>(m, h). length h)") (auto simp: length_drop_first_label)

declare guarded_walk.simps [simp del]

definition guarded_lookup :: "DomainMap \<Rightarrow> string \<Rightarrow> string \<times> bool" where
  "guarded_lookup m hostname = guarded_walk m (strip_trailing_dot hostname)"


subsection \<open>The calls of one pass\<close>

text \<open>Kinds of calls: a deletion; a creation, update or upsert; the calls of the second
  loop of the steady state; a write of the resource; a call on the DNS provider.\<close>

fun is_delete :: "call \<Rightarrow> bool" where
  "is_delete (CallDelete h t) = True"
| "is_delete c = False"

fun is_mutation :: "call \<Rightarrow> bool" where
  "is_mutation (CallCreate rec) = True"
| "is_mutation (CallUpdate rec) = True"
| "is_mutation (CallUpsert rec) = True"
| "is_mutation c = False"

fun is_sync :: "call \<Rightarrow> bool" where
  "is_sync (CallExists h t) = True"
| "is_sync (CallCreate rec) = True"
| "is_sync (CallUpsert rec) = True"
| "is_sync c = False"

fun is_write :: "call \<Rightarrow> bool" where
  "is_write (CallWrite route) = True"
| "is_write c = False"

fun is_dns :: "call \<Rightarrow> bool" where
  "is_dns (CallGet k) = False"
| "is_dns (CallWrite route) = False"
| "is_dns c = True"

text \<open>A recorded call on the resource: a read, or a write of a route that satisfies
  \<open>P\<close>. A write that succeeded.\<close>

fun store_event :: "(HTTPRoute \<Rightarrow> bool) \<Rightarrow> call \<times> bool \<Rightarrow> bool" where
  "store_event P (CallGet k, ok) = True"
| "store_event P (CallWrite route, ok) = P route"
| "store_event P (c, ok) = False"

fun good_write :: "call \<times> bool \<Rightarrow> bool" where
  "good_write (CallWrite route, ok) = ok"
| "good_write (c, ok) = False"

text \<open>The recorded call \<open>Delete(h, "A")\<close>, succeeding and failing.\<close>

definition delete_ok :: "string \<Rightarrow> call \<times> bool" where
  "delete_ok h = (CallDelete h ''A'', True)"

definition delete_failed :: "string \<Rightarrow> call \<times> bool" where
  "delete_failed h = (CallDelete h ''A'', False)"

text \<open>A run of calls that went through, and one that stopped at its first failure.\<close>

definition all_ok :: "(call \<times> bool) list \<Rightarrow> bool" where
  "all_ok evs = list_all snd evs"

definition stopped_at_failure :: "(call \<times> bool) list \<Rightarrow> bool" where
  "stopped_at_failure evs = (evs \<noteq> [] \<and> list_all snd (butlast evs) \<and> \<not> snd (last evs))"

text \<open>The hostnames of the recorded \<open>Delete\<close> calls, in the order of the calls.\<close>

fun deleted_hostnames :: "(call \<times> bool) list \<Rightarrow> string list" where
  "deleted_hostnames [] = []"
| "deleted_hostnames ((CallDelete h t, ok) # evs) = h # deleted_hostnames evs"
| "deleted_hostnames (e # evs) = deleted_hostnames evs"

text \<open>The calls that one pass of \<open>Reconcile\<close> adds to the record.\<close>

definition pass_calls ::
  "Lib \<Rightarrow> ('b, 'k) HTTPRouteReconciler \<Rightarrow> string \<Rightarrow> ('b, 'k) world \<Rightarrow> (call \<times> bool) list" where
  "pass_calls lib r req w = drop (length (calls w)) (calls (snd (Reconcile lib r req w)))"

text \<open>
  The pass is a steady-state pass on \<open>route\<close>: the read at its start returns \<open>route\<close>,
  which is not being deleted and carries the finalizer. The pass is a deletion pass on
  \<open>route\<close>: the read returns \<open>route\<close>, which carries a deletion timestamp.
\<close>

definition steady_state ::
  "('b, 'k) HTTPRouteReconciler \<Rightarrow> string \<Rightarrow> ('b, 'k) world \<Rightarrow> HTTPRoute \<Rightarrow> bool" where
  "steady_state r req w route =
     (APIReader_Get r req (api_state w) = Inr route \<and> IsZero (DeletionTimestamp route) \<and>
      ContainsFinalizer route finalizerName)"

definition deleting ::
  "('b, 'k) HTTPRouteReconciler \<Rightarrow> string \<Rightarrow> ('b, 'k) world \<Rightarrow> HTTPRoute \<Rightarrow> bool" where
  "deleting r req w route =
     (APIReader_Get r req (api_state w) = Inr route \<and> \<not> IsZero (DeletionTimestamp route))"

text \<open>
  The removal diff: the entries of the previous list that are absent from the current
  list, in the order of the previous list. For a route, the previous list is the one
  read from its annotation and the current list is its declared hostnames.
\<close>

definition removed_hostnames :: "string list \<Rightarrow> string list \<Rightarrow> string list" where
  "removed_hostnames previous current = filter (\<lambda>h. \<not> Contains current h) previous"

definition removed_of :: "Lib \<Rightarrow> HTTPRoute \<Rightarrow> string list" where
  "removed_of lib route =
     removed_hostnames (range_of (read_managedHostnames lib route)) (Hostnames route)"

text \<open>The route carries the given list as its managed-hostnames annotation.\<close>

definition carries_managed :: "Lib \<Rightarrow> string list \<Rightarrow> HTTPRoute \<Rightarrow> bool" where
  "carries_managed lib hostnames route =
     (annotation_get (Annotations route) managedHostnamesAnnotation =
        Some (json_Marshal lib hostnames))"


text \<open>
  Running a record of calls again against the collaborators, from a state of the DNS
  backend and of the resource store: each call is applied in turn, it must end as
  recorded (succeed or fail), and the states it leaves are handed to the next. The result
  is the pair of final states, or \<open>None\<close> when some call does not end as recorded.
\<close>

fun replay ::
  "('b, 'k) HTTPRouteReconciler \<Rightarrow> 'b \<times> 'k \<Rightarrow> (call \<times> bool) list \<Rightarrow> ('b \<times> 'k) option" where
  "replay r s [] = Some s"
| "replay r (b, k) ((CallExists h t, ok) # evs) =
     (case Exists (DNS r) h t b of
        (res, b') \<Rightarrow> if ok = (\<not> isl res) then replay r (b', k) evs else None)"
| "replay r (b, k) ((CallCreate record, ok) # evs) =
     (case Create (DNS r) record b of
        (e, b') \<Rightarrow> if ok = (e = None) then replay r (b', k) evs else None)"
| "replay r (b, k) ((CallUpdate record, ok) # evs) =
     (case Update (DNS r) record b of
        (e, b') \<Rightarrow> if ok = (e = None) then replay r (b', k) evs else None)"
| "replay r (b, k) ((CallDelete h t, ok) # evs) =
     (case Delete (DNS r) h t b of
        (e, b') \<Rightarrow> if ok = (e = None) then replay r (b', k) evs else None)"
| "replay r (b, k) ((CallUpsert record, ok) # evs) =
     (case Upsert (DNS r) record b of
        (e, b') \<Rightarrow> if ok = (e = None) then replay r (b', k) evs else None)"
| "replay r (b, k) ((CallGet req, ok) # evs) =
     (if ok = (\<not> isl (APIReader_Get r req k)) then replay r (b, k) evs else None)"
| "replay r (b, k) ((CallWrite route, ok) # evs) =
     (case Client_Update r route k of
        (e, k') \<Rightarrow> if ok = (e = None) then replay r (b, k') evs else None)"

text \<open>The world \<open>w'\<close> comes from \<open>w\<close> by calls that were all recorded and whose
  effects on the two states are exactly the recorded ones.\<close>

definition traced ::
  "('b, 'k) HTTPRouteReconciler \<Rightarrow> ('b, 'k) world \<Rightarrow> ('b, 'k) world \<Rightarrow> bool" where
  "traced r w w' =
     (\<exists>evs. calls w' = calls w @ evs \<and>
        replay r (dns_state w, api_state w) evs = Some (dns_state w', api_state w'))"


subsection \<open>Test doubles and example inputs\<close>

text \<open>
  \<open>mockDNSProvider\<close> of the controller tests: \<open>Exists\<close> answers from \<open>existingHosts\<close>
  (false for a missing key), \<open>Update\<close> does nothing, the other calls append to their
  record, and none fails.
\<close>

record mockDNSProvider =
  existingHosts :: "(string \<times> bool) list"
  createdRecords :: "Record list"
  upsertedRecords :: "Record list"
  deletedHosts :: "string list"

definition mock_Provider :: "mockDNSProvider Provider" where
  "mock_Provider =
     \<lparr>Exists = (\<lambda>hostname recordType m.
         (Inr (case map_of (existingHosts m) hostname of None \<Rightarrow> False | Some b \<Rightarrow> b), m)),
      Create = (\<lambda>record m. (None, m\<lparr>createdRecords := createdRecords m @ [record]\<rparr>)),
      Update = (\<lambda>record m. (None, m)),
      Delete = (\<lambda>hostname recordType m. (None, m\<lparr>deletedHosts := deletedHosts m @ [hostname]\<rparr>)),
      Upsert = (\<lambda>record m. (None, m\<lparr>upsertedRecords := upsertedRecords m @ [record]\<rparr>))\<rparr>"

definition new_mock :: mockDNSProvider where
  "new_mock = \<lparr>existingHosts = [], createdRecords = [], upsertedRecords = [], deletedHosts = []\<rparr>"

text \<open>An OPNsense provider whose server cannot be reached: every request fails when it
  is sent.\<close>

definition unreachable_opnsense :: "unit opnsense" where
  "unreachable_opnsense =
     \<lparr>baseURL = ''https://opnsense.local/api/'', apiKey = ''key123'', apiSecret = ''secret456'',
      marshal_body = (\<lambda>body. Inr ''{}''),
      NewRequest = (\<lambda>method url. None),
      client_Do = (\<lambda>req b. (Inl (Err ''connection refused''), b)),
      decode_search = (\<lambda>body. Inl (Err ''unexpected end of JSON input'')),
      decode_status = (\<lambda>body. Inl (Err ''unexpected end of JSON input'')),
      decode_add = (\<lambda>body. Inl (Err ''unexpected end of JSON input'')),
      decode_result = (\<lambda>body. Inl (Err ''unexpected end of JSON input'')),
      EqualFold = (\<lambda>s t. s = t)\<rparr>"

text \<open>An OPNsense provider whose server holds the given rows, accepts every request and
  keeps a log of the method and URL of each.\<close>

definition canned_opnsense :: "hostRow list \<Rightarrow> (string \<times> string) list opnsense" where
  "canned_opnsense rows =
     \<lparr>baseURL = ''https://opnsense.local/api/'', apiKey = ''key123'', apiSecret = ''secret456'',
      marshal_body = (\<lambda>body. Inr ''{}''),
      NewRequest = (\<lambda>method url. None),
      client_Do = (\<lambda>req log.
         (Inr \<lparr>StatusCode = 200,
               Body = (if prefix ''https://opnsense.local/api/unbound/settings/delHostOverride/''
                            (req_URL req)
                       then ''deleted'' else ''saved'')\<rparr>,
          log @ [(req_Method req, req_URL req)])),
      decode_search = (\<lambda>body. Inr rows),
      decode_status = (\<lambda>body. Inr body),
      decode_add = (\<lambda>body. Inr (body, ''uuid-2'')),
      decode_result = (\<lambda>body. Inr body),
      EqualFold = (\<lambda>s t. s = t)\<rparr>"

definition app_row :: hostRow where
  "app_row = \<lparr>row_UUID = ''uuid-1'', row_Enabled = ''1'', row_Hostname = ''app'',
              row_Domain = ''example.com'', row_RR = ''A'', row_Server = ''10.0.0.1''\<rparr>"

text \<open>A resource store that holds one route: a read returns it, a write replaces it,
  and neither fails.\<close>

definition fake_Get :: "string \<Rightarrow> HTTPRoute \<Rightarrow> err + HTTPRoute" where
  "fake_Get req k = Inr k"

definition fake_Update :: "HTTPRoute \<Rightarrow> HTTPRoute \<Rightarrow> err option \<times> HTTPRoute" where
  "fake_Update route k = (None, route)"

text \<open>A stand-in for the JSON codec: lists are written between brackets with commas,
  and the annotation values of the examples are read back from a table.\<close>

fun join_commas :: "string list \<Rightarrow> string" where
  "join_commas [] = []"
| "join_commas [x] = x"
| "join_commas (x # y # ys) = x @ '','' @ join_commas (y # ys)"

definition example_Lib :: Lib where
  "example_Lib =
     \<lparr>IsNotFound = (\<lambda>e. False), IsConflict = (\<lambda>e. False),
      json_Unmarshal = map_of
        [(''[h1,h2,h3]'', [''h1'', ''h2'', ''h3'']),
         (''[h1,h2]'', [''h1'', ''h2'']),
         (''[a.x,b.x]'', [''a.x'', ''b.x'']),
         (''[a.x,a.x]'', [''a.x'', ''a.x'']),
         (''[a.x,a.x,b.x]'', [''a.x'', ''a.x'', ''b.x'']),
         (''[old.my-domain1.com]'', [''old.my-domain1.com''])],
      json_Marshal = (\<lambda>xs. ''['' @ join_commas xs @ '']'')\<rparr>"

text \<open>Reconcilers over the one-route store, with the domain map of the controller
  tests, and the worlds they start in.\<close>

definition test_reconciler ::
  "'b Provider \<Rightarrow> bool \<Rightarrow> ('b, HTTPRoute) HTTPRouteReconciler" where
  "test_reconciler provider upsert =
     \<lparr>Client_Update = fake_Update, APIReader_Get = fake_Get,
      DomainMap = [''my-domain1.com'' \<mapsto> ''10.0.8.100'', ''my-domain2.it'' \<mapsto> ''10.0.9.50''],
      DNS = provider, UpsertMode = upsert\<rparr>"

definition mock_reconciler :: "(mockDNSProvider, HTTPRoute) HTTPRouteReconciler" where
  "mock_reconciler = test_reconciler mock_Provider False"

definition unreachable_reconciler :: "(unit, HTTPRoute) HTTPRouteReconciler" where
  "unreachable_reconciler = test_reconciler (opnsense_Provider unreachable_opnsense) False"

definition start :: "'b \<Rightarrow> 'k \<Rightarrow> ('b, 'k) world" where
  "start b k = \<lparr>dns_state = b, api_state = k, calls = []\<rparr>"

text \<open>A route in the steady state, with the given annotation value (if any) and declared
  hostnames; and a route that is being deleted.\<close>

definition active_route :: "string option \<Rightarrow> string list \<Rightarrow> HTTPRoute" where
  "active_route managed hostnames =
     \<lparr>DeletionTimestamp = None, Finalizers = [finalizerName],
      Annotations = (case managed of None \<Rightarrow> None
                     | Some v \<Rightarrow> Some [(managedHostnamesAnnotation, v)]),
      Hostnames = hostnames\<rparr>"

definition deleted_route :: "string list \<Rightarrow> string list \<Rightarrow> HTTPRoute" where
  "deleted_route finalizers hostnames =
     \<lparr>DeletionTimestamp = Some 1767225600, Finalizers = finalizers,
      Annotations = None, Hostnames = hostnames\<rparr>"

text \<open>The routes of the examples: two that are being deleted, with and without the
  finalizer, and routes in the steady state with various previous and current lists
  (the last but one has no annotation yet and declares no hostname).\<close>

definition example_deleting :: HTTPRoute where
  "example_deleting = deleted_route [finalizerName] [''app.my-domain1.com'', ''api.my-domain2.it'']"

definition example_deleting_unmanaged :: HTTPRoute where
  "example_deleting_unmanaged = deleted_route [] [''app.my-domain1.com'']"

definition example_diff :: HTTPRoute where
  "example_diff = active_route (Some ''[h1,h2,h3]'') [''h2'', ''h4'']"

definition example_removed_two :: HTTPRoute where
  "example_removed_two = active_route (Some ''[h1,h2]'') []"

definition example_moved :: HTTPRoute where
  "example_moved =
     active_route (Some ''[old.my-domain1.com]'') [''app.my-domain1.com'', ''x.nowhere.org'']"

definition example_same :: HTTPRoute where
  "example_same = active_route (Some ''[a.x,b.x]'') [''a.x'', ''b.x'']"

definition example_reordered :: HTTPRoute where
  "example_reordered = active_route (Some ''[a.x,b.x]'') [''b.x'', ''a.x'']"

definition example_twice :: HTTPRoute where
  "example_twice = active_route (Some ''[a.x,a.x]'') []"

definition example_first :: HTTPRoute where
  "example_first = active_route None []"

definition example_twice_kept :: HTTPRoute where
  "example_twice_kept = active_route (Some ''[a.x,a.x,b.x]'') [''b.x'']"


section \<open>Properties of the string functions\<close>

lemma Index_dot:
  "Index s ''.'' =
     (if CHR ''.'' \<in> set s then int (length (takeWhile (\<lambda>c. c \<noteq> CHR ''.'') s)) else - 1)"
  by (induction s) (auto simp: Let_def)

lemma TrimSuffix_dot: "TrimSuffix s ''.'' = strip_trailing_dot s"
proof (cases "s \<noteq> [] \<and> last s = CHR ''.''")
  case True
  then have "s = butlast s @ ''.''" by (metis append_butlast_last_id)
  then have "suffix ''.'' s" by (metis suffixI)
  with True show ?thesis
    by (simp add: TrimSuffix_def strip_trailing_dot_def butlast_conv_take)
next
  case False
  then have ns: "\<not> suffix ''.'' s" by (auto simp: suffix_def)
  have "TrimSuffix s ''.'' = s" using ns by (simp add: TrimSuffix_def)
  moreover have "strip_trailing_dot s = s" using False by (auto simp: strip_trailing_dot_def)
  ultimately show ?thesis by simp
qed

lemma slice_from_dot:
  assumes "CHR ''.'' \<in> set h"
  shows "slice_from h (Index h ''.'' + 1) = drop_first_label h"
proof -
  let ?n = "length (takeWhile (\<lambda>c. c \<noteq> CHR ''.'') h)"
  have "Index h ''.'' = int ?n" using assms by (simp add: Index_dot)
  then have "slice_from h (Index h ''.'' + 1) = drop (Suc ?n) h"
    by (simp add: slice_from_def nat_add_distrib)
  also have "\<dots> = tl (drop ?n h)" by (simp add: drop_Suc tl_drop)
  also have "drop ?n h = dropWhile (\<lambda>c. c \<noteq> CHR ''.'') h"
    by (simp add: dropWhile_eq_drop)
  finally show ?thesis by (simp add: drop_first_label_def)
qed

lemma slice_to_dot:
  assumes "CHR ''.'' \<in> set h"
  shows "slice_to h (Index h ''.'') = first_label h"
proof -
  have "Index h ''.'' = int (length (takeWhile (\<lambda>c. c \<noteq> CHR ''.'') h))"
    using assms by (simp add: Index_dot)
  then show ?thesis
    by (simp add: slice_to_def first_label_def takeWhile_eq_take[symmetric])
qed

lemma SplitN_dot_2:
  "SplitN t ''.'' 2 =
     (if CHR ''.'' \<in> set t then [first_label t, drop_first_label t] else [t])"
proof -
  have "SplitN t ''.'' 2 = genSplit t ''.'' (Suc 0)" by (simp add: SplitN_def)
  also have "\<dots> = (if CHR ''.'' \<in> set t then [first_label t, drop_first_label t] else [t])"
  proof (cases "CHR ''.'' \<in> set t")
    case True
    then have "0 \<le> Index t ''.''" by (simp add: Index_dot)
    with True show ?thesis
      using slice_from_dot[OF True] slice_to_dot[OF True] by (simp add: Let_def)
  next
    case False
    then show ?thesis by (simp add: Index_dot)
  qed
  finally show ?thesis .
qed


section \<open>Properties of DomainMap.LookupIP\<close>

lemma LookupIP_loop_unfold:
  "LookupIP_loop m h =
     (if h = [] then ('''', False)
      else (case m h of
              Some t \<Rightarrow> (t, True)
            | None \<Rightarrow>
                if CHR ''.'' \<notin> set h then ('''', False)
                else (case m (''*.'' @ drop_first_label h) of
                        Some t \<Rightarrow> (t, True)
                      | None \<Rightarrow> LookupIP_loop m (drop_first_label h))))"
proof (cases "CHR ''.'' \<in> set h")
  case True
  then have "0 \<le> Index h ''.''" by (simp add: Index_dot)
  then show ?thesis
    using slice_from_dot[OF True] True
    by (subst LookupIP_loop.simps) (simp add: Let_def split: option.splits)
next
  case False
  then have "Index h ''.'' < 0" by (simp add: Index_dot)
  then show ?thesis
    using False
    by (subst LookupIP_loop.simps) (simp add: Let_def split: option.splits)
qed

lemma LookupIP_loop_guarded: "LookupIP_loop m h = guarded_walk m h"
proof (induction m h rule: guarded_walk.induct)
  case (1 m h)
  show ?case
    by (subst LookupIP_loop_unfold, subst guarded_walk.simps)
       (simp add: 1 split: option.splits)
qed

lemma guarded_reference:
  "m ''*.'' = None \<Longrightarrow> guarded_walk m h = reference_walk m h"
proof (induction m h rule: guarded_walk.induct)
  case (1 m h)
  show ?case
  proof (cases "CHR ''.'' \<in> set h")
    case True
    then show ?thesis
      using 1 by (subst guarded_walk.simps, subst reference_walk.simps)
         (simp split: option.splits)
  next
    case False
    from False have dw: "dropWhile (\<lambda>c. c \<noteq> CHR ''.'') h = []" by auto
    have d: "drop_first_label h = []" by (simp only: drop_first_label_def dw list.sel)
    show ?thesis
      using False 1(2)
      by (subst guarded_walk.simps, subst reference_walk.simps)
         (simp add: d reference_walk.simps[of m "[]"] split: option.splits)
  qed
qed

text \<open>
  C1 (as amended). For every domain map and every hostname, \<open>LookupIP\<close> returns exactly
  the result of the priority walk that, after stripping a single trailing dot, visits
  the suffixes of the hostname one label at a time, prefers the exact entry, and
  consults the wildcard form \<open>"*." + (h with its first label removed)\<close> only while the
  visited name \<open>h\<close> still contains a dot; a single-label name without an exact entry
  ends the walk with not-found. For a domain map that has no entry under the key
  \<open>"*."\<close> this is the reference walk of the specification, word for word.
\<close>

theorem LookupIP_priority_walk:
  "LookupIP m hostname = guarded_lookup m hostname \<and>
   (m ''*.'' = None \<longrightarrow> LookupIP m hostname = reference_lookup m hostname)"
  by (simp add: LookupIP_def guarded_lookup_def reference_lookup_def TrimSuffix_dot
      LookupIP_loop_guarded guarded_reference)

theorem LookupIP_priority_walk_witness:
  "LookupIP [''*.mydomain.com'' \<mapsto> ''10.0.0.1'', ''app2.mydomain.com'' \<mapsto> ''10.0.0.2'']
      ''deep.nested.mydomain.com.'' = (''10.0.0.1'', True) \<and>
   reference_lookup [''*.mydomain.com'' \<mapsto> ''10.0.0.1'', ''app2.mydomain.com'' \<mapsto> ''10.0.0.2'']
      ''deep.nested.mydomain.com.'' = (''10.0.0.1'', True)"
proof -
  let ?m = "[''*.mydomain.com'' \<mapsto> ''10.0.0.1'', ''app2.mydomain.com'' \<mapsto> ''10.0.0.2'']"
  have none: "?m ''*.'' = None" by simp
  have r: "reference_lookup ?m ''deep.nested.mydomain.com.'' = (''10.0.0.1'', True)"
    by (simp add: reference_lookup_def strip_trailing_dot_def reference_walk.simps
        drop_first_label_def)
  have "LookupIP ?m ''deep.nested.mydomain.com.'' =
        reference_lookup ?m ''deep.nested.mydomain.com.''"
    using LookupIP_priority_walk[of ?m "''deep.nested.mydomain.com.''"] none by blast
  with r show ?thesis by simp
qed

text \<open>
  C1 (as stated) fails: with the single entry \<open>"*."\<close> the reference walk, visiting the
  one-label name \<open>com\<close>, finds the wildcard form \<open>"*." + ""\<close> and returns its target,
  whereas \<open>LookupIP\<close> leaves the loop as soon as the visited name has no dot and reports
  not-found.
\<close>

theorem LookupIP_reference_walk_counterexample:
  "LookupIP [''*.'' \<mapsto> ''10.0.0.1''] ''com'' = ('''', False) \<and>
   reference_lookup [''*.'' \<mapsto> ''10.0.0.1''] ''com'' = (''10.0.0.1'', True)"
  by (simp add: LookupIP_def reference_lookup_def TrimSuffix_dot strip_trailing_dot_def
      LookupIP_loop.simps reference_walk.simps drop_first_label_def)

lemma singleton_wildcard_sub:
  "LookupIP_loop [''*.'' @ D \<mapsto> T] (P @ ''.'' @ D) = (T, True)"
proof (induction "length P" arbitrary: P rule: less_induct)
  case less
  let ?m = "[''*.'' @ D \<mapsto> T]"
  let ?h = "P @ ''.'' @ D"
  show ?case
  proof (cases "CHR ''.'' \<in> set P")
    case False
    then have "drop_first_label ?h = D"
      by (simp add: drop_first_label_def dropWhile_append)
    then show ?thesis
      by (subst LookupIP_loop_unfold) simp
  next
    case True
    then have P: "P \<noteq> []" by auto
    from True have d: "drop_first_label ?h = drop_first_label P @ ''.'' @ D"
      by (simp add: drop_first_label_def dropWhile_append)
    have "LookupIP_loop ?m (drop_first_label P @ ''.'' @ D) = (T, True)"
      using less[of "drop_first_label P"] length_drop_first_label[OF P] by simp
    then show ?thesis
      using d by (subst LookupIP_loop_unfold) simp
  qed
qed

lemma singleton_wildcard_short:
  "length h \<le> length D \<Longrightarrow> LookupIP_loop [''*.'' @ D \<mapsto> T] h = ('''', False)"
proof (induction "length h" arbitrary: h rule: less_induct)
  case less
  show ?case
  proof (cases "h = []")
    case True
    then show ?thesis by (subst LookupIP_loop_unfold) simp
  next
    case False
    have l: "length (drop_first_label h) < length h"
      by (rule length_drop_first_label[OF False])
    have ne1: "h \<noteq> ''*.'' @ D" using less.prems by auto
    have ne2: "drop_first_label h \<noteq> D" using l less.prems by auto
    have "LookupIP_loop [''*.'' @ D \<mapsto> T] (drop_first_label h) = ('''', False)"
      using less.hyps[of "drop_first_label h"] l less.prems by simp
    then show ?thesis
      using ne1 ne2 by (subst LookupIP_loop_unfold) simp
  qed
qed

text \<open>
  C7. A hostname is a strict sub-label of \<open>D\<close> when, its single trailing dot stripped,
  it reads \<open>P.D\<close> for some labels \<open>P\<close> in front; it is the bare domain when, its trailing
  dot stripped, it reads \<open>D\<close>. In the domain map whose only entry is \<open>"*.D" \<mapsto> T\<close>,
  every hostname that is a strict sub-label of \<open>D\<close>, however many labels deep, resolves
  to \<open>T\<close>, and the bare domain \<open>D\<close> is not found. So for the map \<open>{"*.a.com": T1}\<close> the
  lookup of \<open>x.a.com\<close> returns \<open>T1\<close> and the lookup of \<open>a.com\<close> reports not-found.
\<close>

theorem wildcard_matches_sublabels_only:
  "(strip_trailing_dot hostname = P @ ''.'' @ D \<longrightarrow>
      LookupIP [''*.'' @ D \<mapsto> T] hostname = (T, True)) \<and>
   (strip_trailing_dot hostname = D \<longrightarrow>
      LookupIP [''*.'' @ D \<mapsto> T] hostname = ('''', False)) \<and>
   LookupIP [''*.'' @ D \<mapsto> T] D = ('''', False)"
proof -
  have sub: "LookupIP [''*.'' @ D \<mapsto> T] hostname = (T, True)"
    if "strip_trailing_dot hostname = P @ ''.'' @ D"
    unfolding LookupIP_def TrimSuffix_dot that by (rule singleton_wildcard_sub)
  have bare: "LookupIP [''*.'' @ D \<mapsto> T] hostname = ('''', False)"
    if "strip_trailing_dot hostname = D"
    unfolding LookupIP_def TrimSuffix_dot that by (rule singleton_wildcard_short[OF order_refl])
  have t: "length (strip_trailing_dot D) \<le> length D"
    by (simp add: strip_trailing_dot_def)
  have verbatim: "LookupIP [''*.'' @ D \<mapsto> T] D = ('''', False)"
    unfolding LookupIP_def TrimSuffix_dot by (rule singleton_wildcard_short[OF t])
  from sub bare verbatim show ?thesis by blast
qed

theorem wildcard_matches_sublabels_only_witness:
  "LookupIP [''*.a.com'' \<mapsto> ''T1''] ''x.a.com'' = (''T1'', True) \<and>
   LookupIP [''*.a.com'' \<mapsto> ''T1''] ''deep.x.a.com.'' = (''T1'', True) \<and>
   LookupIP [''*.a.com'' \<mapsto> ''T1''] ''a.com'' = ('''', False) \<and>
   LookupIP [''*.a.com'' \<mapsto> ''T1''] ''a.com.'' = ('''', False)"
proof -
  have s1: "strip_trailing_dot ''x.a.com'' = ''x'' @ ''.'' @ ''a.com''"
    and s2: "strip_trailing_dot ''deep.x.a.com.'' = ''deep.x'' @ ''.'' @ ''a.com''"
    and s3: "strip_trailing_dot ''a.com'' = ''a.com''"
    and s4: "strip_trailing_dot ''a.com.'' = ''a.com''"
    by (simp_all add: strip_trailing_dot_def)
  from wildcard_matches_sublabels_only[of "''x.a.com''" "''x''" "''a.com''" "''T1''", THEN conjunct1] s1
  have a: "LookupIP [''*.'' @ ''a.com'' \<mapsto> ''T1''] ''x.a.com'' = (''T1'', True)" by blast
  from wildcard_matches_sublabels_only[of "''deep.x.a.com.''" "''deep.x''" "''a.com''" "''T1''",
      THEN conjunct1] s2
  have b: "LookupIP [''*.'' @ ''a.com'' \<mapsto> ''T1''] ''deep.x.a.com.'' = (''T1'', True)" by blast
  from wildcard_matches_sublabels_only[of "''a.com''" _ "''a.com''" "''T1''",
      THEN conjunct2, THEN conjunct1] s3
  have c: "LookupIP [''*.'' @ ''a.com'' \<mapsto> ''T1''] ''a.com'' = ('''', False)" by blast
  from wildcard_matches_sublabels_only[of "''a.com.''" _ "''a.com''" "''T1''",
      THEN conjunct2, THEN conjunct1] s4
  have d: "LookupIP [''*.'' @ ''a.com'' \<mapsto> ''T1''] ''a.com.'' = ('''', False)" by blast
  from a b c d show ?thesis by simp
qed

text \<open>
  Only the hostname is normalised; the keys of the map are compared as they are written.
  An entry whose domain is written with a trailing dot is therefore out of reach of a
  hostname that ends in the same dot, since that dot is stripped before the walk.
\<close>

lemma wildcard_key_is_verbatim:
  "LookupIP [''*.a.com.'' \<mapsto> ''T1''] ''x.a.com.'' = ('''', False) \<and>
   LookupIP [''*.a.com.'' \<mapsto> ''T1''] ''x.a.com..'' = (''T1'', True)"
  by (simp add: LookupIP_def TrimSuffix_dot strip_trailing_dot_def LookupIP_loop_unfold
      drop_first_label_def)


section \<open>Properties of SplitHostname\<close>

lemma SplitHostname_eq:
  "SplitHostname s =
     (if CHR ''.'' \<in> set (strip_trailing_dot s)
      then (first_label (strip_trailing_dot s), drop_first_label (strip_trailing_dot s))
      else (strip_trailing_dot s, ''''))"
  by (simp add: SplitHostname_def SplitN_dot_2 Let_def TrimSuffix_dot)

lemma label_round_trip:
  "CHR ''.'' \<in> set t \<Longrightarrow> first_label t @ ''.'' @ drop_first_label t = t"
proof -
  assume d: "CHR ''.'' \<in> set t"
  then have ne: "dropWhile (\<lambda>c. c \<noteq> CHR ''.'') t \<noteq> []" by auto
  then have "hd (dropWhile (\<lambda>c. c \<noteq> CHR ''.'') t) = CHR ''.''"
    using hd_dropWhile[of "\<lambda>c. c \<noteq> CHR ''.''" t] by simp
  with ne have "dropWhile (\<lambda>c. c \<noteq> CHR ''.'') t = CHR ''.'' # drop_first_label t"
    by (cases "dropWhile (\<lambda>c. c \<noteq> CHR ''.'') t") (auto simp: drop_first_label_def)
  then have "first_label t @ ''.'' @ drop_first_label t =
             takeWhile (\<lambda>c. c \<noteq> CHR ''.'') t @ dropWhile (\<lambda>c. c \<noteq> CHR ''.'') t"
    by (simp add: first_label_def)
  then show ?thesis by simp
qed

lemma first_label_no_dot: "CHR ''.'' \<notin> set (first_label t)"
  by (auto simp: first_label_def dest: set_takeWhileD)

lemma strip_no_dot: "CHR ''.'' \<notin> set s \<Longrightarrow> strip_trailing_dot s = s"
  by (metis last_in_set strip_trailing_dot_def)

text \<open>
  C10. For every input, \<open>SplitHostname\<close> strips at most one trailing dot and splits what
  is left at its first dot: the hostname part is the first label (it has no dot) and the
  domain part is the whole remainder; an input without a dot comes back as
  \<open>(input, "")\<close>; whenever the domain part is non-empty, \<open>hostname + "." + domain\<close> is the
  dot-trimmed input. The request body built for a record carries exactly these two parts
  in its \<open>hostname\<close> and \<open>domain\<close> fields, and \<open>findOverride\<close> compares the rows of a
  successful search against exactly these two parts.
\<close>

theorem SplitHostname_first_dot:
  "SplitHostname s =
     (if CHR ''.'' \<in> set (strip_trailing_dot s)
      then (first_label (strip_trailing_dot s), drop_first_label (strip_trailing_dot s))
      else (strip_trailing_dot s, '''')) \<and>
   CHR ''.'' \<notin> set (fst (SplitHostname s)) \<and>
   (CHR ''.'' \<notin> set s \<longrightarrow> SplitHostname s = (s, '''')) \<and>
   (snd (SplitHostname s) \<noteq> '''' \<longrightarrow>
      fst (SplitHostname s) @ ''.'' @ snd (SplitHostname s) = strip_trailing_dot s) \<and>
   map_of (buildHostBody record) ''hostname'' = Some (fst (SplitHostname (Hostname record))) \<and>
   map_of (buildHostBody record) ''domain'' = Some (snd (SplitHostname (Hostname record))) \<and>
   (doRequest p ''GET'' ''unbound/settings/searchHostOverride'' NoBody b = (Inr resp, b') \<and>
    StatusCode resp = StatusOK \<and> decode_search p (Body resp) = Inr rows \<longrightarrow>
      findOverride p s recordType b =
        (Inr (find_row (EqualFold p) rows (fst (SplitHostname s)) (snd (SplitHostname s))
                recordType), b'))"
proof -
  have nodot: "CHR ''.'' \<notin> set (fst (SplitHostname s))"
    by (simp add: SplitHostname_eq first_label_no_dot)
  have plain: "CHR ''.'' \<notin> set s \<longrightarrow> SplitHostname s = (s, '''')"
    by (simp add: SplitHostname_eq strip_no_dot)
  have rt: "snd (SplitHostname s) \<noteq> '''' \<longrightarrow>
      fst (SplitHostname s) @ ''.'' @ snd (SplitHostname s) = strip_trailing_dot s"
    using label_round_trip[of "strip_trailing_dot s"] by (simp add: SplitHostname_eq)
  have body: "map_of (buildHostBody record) ''hostname'' = Some (fst (SplitHostname (Hostname record)))"
    "map_of (buildHostBody record) ''domain'' = Some (snd (SplitHostname (Hostname record)))"
    by (cases "SplitHostname (Hostname record)", simp add: buildHostBody_def)+
  have find: "doRequest p ''GET'' ''unbound/settings/searchHostOverride'' NoBody b = (Inr resp, b') \<and>
    StatusCode resp = StatusOK \<and> decode_search p (Body resp) = Inr rows \<longrightarrow>
      findOverride p s recordType b =
        (Inr (find_row (EqualFold p) rows (fst (SplitHostname s)) (snd (SplitHostname s))
                recordType), b')"
    by (simp add: findOverride_def split: prod.splits)
  from SplitHostname_eq[of s] nodot plain rt body find show ?thesis by blast
qed

theorem SplitHostname_first_dot_witness:
  "SplitHostname ''sub.app.example.com'' = (''sub'', ''app.example.com'') \<and>
   SplitHostname ''sub.app.example.com.'' = (''sub'', ''app.example.com'') \<and>
   ''sub'' @ ''.'' @ ''app.example.com'' = strip_trailing_dot ''sub.app.example.com.'' \<and>
   SplitHostname ''localhost'' = (''localhost'', '''')"
proof -
  have a: "SplitHostname ''sub.app.example.com'' = (''sub'', ''app.example.com'')"
    and b: "SplitHostname ''sub.app.example.com.'' = (''sub'', ''app.example.com'')"
    by code_simp+
  have c: "CHR ''.'' \<notin> set ''localhost''" by simp
  have d: "snd (SplitHostname ''sub.app.example.com.'') \<noteq> ''''" by (simp add: b)
  from SplitHostname_first_dot[of "''localhost''",
      THEN conjunct2, THEN conjunct2, THEN conjunct1] c
  have e: "SplitHostname ''localhost'' = (''localhost'', '''')" by blast
  from SplitHostname_first_dot[of "''sub.app.example.com.''",
      THEN conjunct2, THEN conjunct2, THEN conjunct2, THEN conjunct1] d
  have "fst (SplitHostname ''sub.app.example.com.'') @ ''.'' @
        snd (SplitHostname ''sub.app.example.com.'') = strip_trailing_dot ''sub.app.example.com.''"
    by blast
  with a b e show ?thesis by simp
qed


section \<open>Properties of the OPNsense provider\<close>

text \<open>
  C8. For every record, \<open>Upsert\<close> is the composition of the other primitives: it calls
  \<open>Exists\<close> for the hostname and the type of the record, in the state it was called in;
  if \<open>Exists\<close> fails, \<open>Upsert\<close> fails with that error, wrapped under the context
  \<open>opnsense: upsert check\<close> (unwrapping gives the error of \<open>Exists\<close> back); if \<open>Exists\<close>
  reports true, the result of \<open>Upsert\<close> is the result of \<open>Update\<close> on the record, and
  otherwise the result of \<open>Create\<close>, each run in the state \<open>Exists\<close> left. The provider
  handed to the reconciler has these functions as its methods.
\<close>

theorem opnsense_Upsert_composition:
  "(opnsense_Exists p (Hostname record) (Type record) b = (Inl e, b') \<longrightarrow>
      opnsense_Upsert p record b = (Some (Wrapf ''opnsense: upsert check'' e), b') \<and>
      Unwrap (Wrapf ''opnsense: upsert check'' e) = Some e) \<and>
   (opnsense_Exists p (Hostname record) (Type record) b = (Inr True, b') \<longrightarrow>
      opnsense_Upsert p record b = opnsense_Update p record b') \<and>
   (opnsense_Exists p (Hostname record) (Type record) b = (Inr False, b') \<longrightarrow>
      opnsense_Upsert p record b = opnsense_Create p record b') \<and>
   Upsert (opnsense_Provider p) = opnsense_Upsert p \<and>
   Exists (opnsense_Provider p) = opnsense_Exists p \<and>
   Update (opnsense_Provider p) = opnsense_Update p \<and>
   Create (opnsense_Provider p) = opnsense_Create p"
proof -
  obtain res b1 where x: "opnsense_Exists p (Hostname record) (Type record) b = (res, b1)"
    by (cases "opnsense_Exists p (Hostname record) (Type record) b")
  have failed: "opnsense_Upsert p record b = (Some (Wrapf ''opnsense: upsert check'' e), b')"
    if "res = Inl e" "b1 = b'"
    using x that by (simp add: opnsense_Upsert_def)
  have found: "opnsense_Upsert p record b = opnsense_Update p record b'"
    if "res = Inr True" "b1 = b'"
    using x that by (simp add: opnsense_Upsert_def)
  have missing: "opnsense_Upsert p record b = opnsense_Create p record b'"
    if "res = Inr False" "b1 = b'"
    using x that by (simp add: opnsense_Upsert_def)
  have methods: "Upsert (opnsense_Provider p) = opnsense_Upsert p"
    "Exists (opnsense_Provider p) = opnsense_Exists p"
    "Update (opnsense_Provider p) = opnsense_Update p"
    "Create (opnsense_Provider p) = opnsense_Create p"
    by (simp_all add: opnsense_Provider_def)
  from failed found missing methods x show ?thesis by simp
qed

theorem opnsense_Upsert_composition_witness:
  "opnsense_Upsert (canned_opnsense [app_row]) (managed_record ''app.example.com'' ''10.0.0.2'') [] =
     opnsense_Update (canned_opnsense [app_row]) (managed_record ''app.example.com'' ''10.0.0.2'')
       [(''GET'', ''https://opnsense.local/api/unbound/settings/searchHostOverride'')] \<and>
   opnsense_Upsert (canned_opnsense [app_row]) (managed_record ''new.example.com'' ''10.0.0.2'') [] =
     opnsense_Create (canned_opnsense [app_row]) (managed_record ''new.example.com'' ''10.0.0.2'')
       [(''GET'', ''https://opnsense.local/api/unbound/settings/searchHostOverride'')] \<and>
   opnsense_Upsert unreachable_opnsense (managed_record ''app.example.com'' ''10.0.0.2'') () =
     (Some (Wrapf ''opnsense: upsert check''
        (Wrapf ''opnsense: GET unbound/settings/searchHostOverride'' (Err ''connection refused''))),
      ())"
proof -
  let ?app = "managed_record ''app.example.com'' ''10.0.0.2''"
  let ?new = "managed_record ''new.example.com'' ''10.0.0.2''"
  let ?log = "[(''GET'', ''https://opnsense.local/api/unbound/settings/searchHostOverride'')]"
  have x1: "opnsense_Exists (canned_opnsense [app_row]) (Hostname ?app) (Type ?app) [] =
              (Inr True, ?log)" by code_simp
  have x2: "opnsense_Exists (canned_opnsense [app_row]) (Hostname ?new) (Type ?new) [] =
              (Inr False, ?log)" by code_simp
  have x3: "opnsense_Exists unreachable_opnsense (Hostname ?app) (Type ?app) () =
              (Inl (Wrapf ''opnsense: GET unbound/settings/searchHostOverride''
                 (Err ''connection refused'')), ())" by code_simp
  from opnsense_Upsert_composition[of "canned_opnsense [app_row]" ?app "[]" _ ?log,
      THEN conjunct2, THEN conjunct1] x1
  have u1: "opnsense_Upsert (canned_opnsense [app_row]) ?app [] =
              opnsense_Update (canned_opnsense [app_row]) ?app ?log" by blast
  from opnsense_Upsert_composition[of "canned_opnsense [app_row]" ?new "[]" _ ?log,
      THEN conjunct2, THEN conjunct2, THEN conjunct1] x2
  have u2: "opnsense_Upsert (canned_opnsense [app_row]) ?new [] =
              opnsense_Create (canned_opnsense [app_row]) ?new ?log" by blast
  from opnsense_Upsert_composition[of unreachable_opnsense ?app "()"
      "Wrapf ''opnsense: GET unbound/settings/searchHostOverride'' (Err ''connection refused'')"
      "()", THEN conjunct1] x3
  have u3: "opnsense_Upsert unreachable_opnsense ?app () =
     (Some (Wrapf ''opnsense: upsert check''
        (Wrapf ''opnsense: GET unbound/settings/searchHostOverride'' (Err ''connection refused''))),
      ())" by blast
  from u1 u2 u3 show ?thesis by blast
qed


section \<open>Properties of Reconcile\<close>

subsection \<open>What each call and each loop adds to the record of calls\<close>

lemma do_Delete_effect:
  "do_Delete r h t w = (res, w') \<Longrightarrow>
     api_state w' = api_state w \<and> calls w' = calls w @ [(CallDelete h t, res = None)]"
  by (auto simp: do_Delete_def split: prod.splits)

lemma delete_removed_None:
  "delete_removed r cur prev w = (None, w') \<Longrightarrow>
     api_state w' = api_state w \<and>
     calls w' = calls w @ map delete_ok (removed_hostnames prev cur)"
proof (induction prev arbitrary: w)
  case Nil
  then show ?case by (simp add: removed_hostnames_def)
next
  case (Cons h prev)
  show ?case
  proof (cases "Contains cur h")
    case True
    with Cons show ?thesis by (simp add: removed_hostnames_def)
  next
    case False
    obtain res w1 where d: "do_Delete r h ''A'' w = (res, w1)" by (cases "do_Delete r h ''A'' w")
    with Cons.prems False have res: "res = None" and rest: "delete_removed r cur prev w1 = (None, w')"
      by (auto split: option.splits)
    from do_Delete_effect[OF d] res Cons.IH[OF rest] False show ?thesis
      by (simp add: removed_hostnames_def delete_ok_def)
  qed
qed

lemma delete_removed_Some:
  "delete_removed r cur prev w = (Some e, w') \<Longrightarrow>
     api_state w' = api_state w \<and>
     (\<exists>n. n < length (removed_hostnames prev cur) \<and>
        calls w' = calls w @ map delete_ok (take n (removed_hostnames prev cur)) @
                     [delete_failed (removed_hostnames prev cur ! n)])"
proof (induction prev arbitrary: w)
  case Nil
  then show ?case by simp
next
  case (Cons h prev)
  show ?case
  proof (cases "Contains cur h")
    case True
    with Cons show ?thesis by (simp add: removed_hostnames_def)
  next
    case False
    obtain res w1 where d: "do_Delete r h ''A'' w = (res, w1)" by (cases "do_Delete r h ''A'' w")
    show ?thesis
    proof (cases res)
      case None
      with Cons.prems False d have rest: "delete_removed r cur prev w1 = (Some e, w')" by simp
      from Cons.IH[OF rest] obtain n where
        n: "n < length (removed_hostnames prev cur)" and
        a: "api_state w' = api_state w1" and
        c: "calls w' = calls w1 @ map delete_ok (take n (removed_hostnames prev cur)) @
               [delete_failed (removed_hostnames prev cur ! n)]" by blast
      have "Suc n < length (removed_hostnames (h # prev) cur)"
        using n False by (simp add: removed_hostnames_def)
      moreover have "calls w' = calls w @ map delete_ok (take (Suc n) (removed_hostnames (h # prev) cur)) @
               [delete_failed (removed_hostnames (h # prev) cur ! Suc n)]"
        using c do_Delete_effect[OF d] None False by (simp add: removed_hostnames_def delete_ok_def)
      moreover have "api_state w' = api_state w" using a do_Delete_effect[OF d] by simp
      ultimately show ?thesis by blast
    next
      case (Some e')
      with Cons.prems False d have "w' = w1" by simp
      with do_Delete_effect[OF d] Some False have
        "api_state w' = api_state w"
        "calls w' = calls w @ map delete_ok (take 0 (removed_hostnames (h # prev) cur)) @
               [delete_failed (removed_hostnames (h # prev) cur ! 0)]"
        "0 < length (removed_hostnames (h # prev) cur)"
        by (simp_all add: removed_hostnames_def delete_failed_def)
      then show ?thesis by blast
    qed
  qed
qed

lemma do_Exists_effect:
  "do_Exists r h t w = (res, w') \<Longrightarrow>
     api_state w' = api_state w \<and> calls w' = calls w @ [(CallExists h t, \<not> isl res)]"
  by (auto simp: do_Exists_def split: prod.splits)

lemma do_Create_effect:
  "do_Create r rec w = (res, w') \<Longrightarrow>
     api_state w' = api_state w \<and> calls w' = calls w @ [(CallCreate rec, res = None)]"
  by (auto simp: do_Create_def split: prod.splits)

lemma do_Upsert_effect:
  "do_Upsert r rec w = (res, w') \<Longrightarrow>
     api_state w' = api_state w \<and> calls w' = calls w @ [(CallUpsert rec, res = None)]"
  by (auto simp: do_Upsert_def split: prod.splits)

lemma do_Get_result:
  "do_Get r req w = (res, w') \<Longrightarrow> res = APIReader_Get r req (api_state w)"
  by (auto simp: do_Get_def Let_def)

lemma do_Get_effect:
  "do_Get r req w = (res, w') \<Longrightarrow>
     api_state w' = api_state w \<and> dns_state w' = dns_state w \<and>
     calls w' = calls w @ [(CallGet req, \<not> isl res)]"
  by (auto simp: do_Get_def Let_def)

lemma do_Write_effect:
  "do_Write r route w = (res, w') \<Longrightarrow>
     dns_state w' = dns_state w \<and> calls w' = calls w @ [(CallWrite route, res = None)]"
  by (auto simp: do_Write_def split: prod.splits)

lemma all_ok_Cons: "all_ok (e # evs) = (snd e \<and> all_ok evs)"
  by (simp add: all_ok_def)

lemma stopped_Cons:
  "snd e \<Longrightarrow> stopped_at_failure evs \<Longrightarrow> stopped_at_failure (e # evs)"
  by (cases evs) (auto simp: stopped_at_failure_def)

lemma stopped_single: "\<not> snd e \<Longrightarrow> stopped_at_failure [e]"
  by (simp add: stopped_at_failure_def)

lemma sync_hostnames_calls:
  "sync_hostnames r hs w = (res, w') \<Longrightarrow>
     api_state w' = api_state w \<and>
     (\<exists>evs. calls w' = calls w @ evs \<and> list_all (\<lambda>e. is_sync (fst e)) evs \<and>
        (if res = None then all_ok evs else stopped_at_failure evs))"
proof (induction hs arbitrary: w)
  case Nil
  then show ?case by (simp add: all_ok_def)
next
  case (Cons h hs)
  obtain ip ok where l: "LookupIP (DomainMap r) h = (ip, ok)" by (cases "LookupIP (DomainMap r) h")
  show ?case
  proof (cases ok)
    case False
    with Cons l show ?thesis by simp
  next
    case True
    note ok = True
    show ?thesis
    proof (cases "UpsertMode r")
      case True
      obtain res1 w1 where u: "do_Upsert r (managed_record h ip) w = (res1, w1)"
        by (cases "do_Upsert r (managed_record h ip) w")
      note eff = do_Upsert_effect[OF u]
      show ?thesis
      proof (cases res1)
        case None
        with Cons.prems l ok True u have rest: "sync_hostnames r hs w1 = (res, w')" by simp
        from Cons.IH[OF rest] obtain evs where
          "api_state w' = api_state w1" "calls w' = calls w1 @ evs"
          "list_all (\<lambda>e. is_sync (fst e)) evs"
          "if res = None then all_ok evs else stopped_at_failure evs" by blast
        with eff None have
          "api_state w' = api_state w"
          "calls w' = calls w @ ((CallUpsert (managed_record h ip), True) # evs)"
          "list_all (\<lambda>e. is_sync (fst e)) ((CallUpsert (managed_record h ip), True) # evs)"
          "if res = None then all_ok ((CallUpsert (managed_record h ip), True) # evs)
           else stopped_at_failure ((CallUpsert (managed_record h ip), True) # evs)"
          by (simp_all add: all_ok_Cons stopped_Cons)
        then show ?thesis by blast
      next
        case (Some e)
        with Cons.prems l ok True u have "res \<noteq> None" "w' = w1" by auto
        with eff Some have
          "api_state w' = api_state w"
          "calls w' = calls w @ [(CallUpsert (managed_record h ip), False)]"
          "list_all (\<lambda>e. is_sync (fst e)) [(CallUpsert (managed_record h ip), False)]"
          "if res = None then all_ok [(CallUpsert (managed_record h ip), False)]
           else stopped_at_failure [(CallUpsert (managed_record h ip), False)]"
          by (auto simp: stopped_single)
        then show ?thesis by blast
      qed
    next
      case False
      obtain res1 w1 where x: "do_Exists r h ''A'' w = (res1, w1)"
        by (cases "do_Exists r h ''A'' w")
      note eff = do_Exists_effect[OF x]
      show ?thesis
      proof (cases res1)
        case (Inl e)
        with Cons.prems l ok False x have "res \<noteq> None" "w' = w1" by auto
        with eff Inl have
          "api_state w' = api_state w"
          "calls w' = calls w @ [(CallExists h ''A'', False)]"
          "list_all (\<lambda>e. is_sync (fst e)) [(CallExists h ''A'', False)]"
          "if res = None then all_ok [(CallExists h ''A'', False)]
           else stopped_at_failure [(CallExists h ''A'', False)]"
          by (auto simp: stopped_single)
        then show ?thesis by blast
      next
        case (Inr exists)
        show ?thesis
        proof (cases exists)
          case True
          with Cons.prems l ok False x Inr have rest: "sync_hostnames r hs w1 = (res, w')" by simp
          from Cons.IH[OF rest] obtain evs where
            "api_state w' = api_state w1" "calls w' = calls w1 @ evs"
            "list_all (\<lambda>e. is_sync (fst e)) evs"
            "if res = None then all_ok evs else stopped_at_failure evs" by blast
          with eff Inr have
            "api_state w' = api_state w"
            "calls w' = calls w @ ((CallExists h ''A'', True) # evs)"
            "list_all (\<lambda>e. is_sync (fst e)) ((CallExists h ''A'', True) # evs)"
            "if res = None then all_ok ((CallExists h ''A'', True) # evs)
             else stopped_at_failure ((CallExists h ''A'', True) # evs)"
            by (simp_all add: all_ok_Cons stopped_Cons)
          then show ?thesis by blast
        next
          case nex: False
          obtain res2 w2 where c: "do_Create r (managed_record h ip) w1 = (res2, w2)"
            by (cases "do_Create r (managed_record h ip) w1")
          note eff2 = do_Create_effect[OF c]
          show ?thesis
          proof (cases res2)
            case None
            with Cons.prems l ok False x Inr nex c
            have rest: "sync_hostnames r hs w2 = (res, w')" by simp
            from Cons.IH[OF rest] obtain evs where
              "api_state w' = api_state w2" "calls w' = calls w2 @ evs"
              "list_all (\<lambda>e. is_sync (fst e)) evs"
              "if res = None then all_ok evs else stopped_at_failure evs" by blast
            with eff eff2 Inr None have
              "api_state w' = api_state w"
              "calls w' = calls w @
                 ((CallExists h ''A'', True) # (CallCreate (managed_record h ip), True) # evs)"
              "list_all (\<lambda>e. is_sync (fst e))
                 ((CallExists h ''A'', True) # (CallCreate (managed_record h ip), True) # evs)"
              "if res = None
               then all_ok ((CallExists h ''A'', True) # (CallCreate (managed_record h ip), True) # evs)
               else stopped_at_failure
                 ((CallExists h ''A'', True) # (CallCreate (managed_record h ip), True) # evs)"
              by (simp_all add: all_ok_Cons stopped_Cons)
            then show ?thesis by blast
          next
            case (Some e)
            with Cons.prems l ok False x Inr nex c have "res \<noteq> None" "w' = w2" by auto
            with eff eff2 Inr Some have
              "api_state w' = api_state w"
              "calls w' = calls w @
                 [(CallExists h ''A'', True), (CallCreate (managed_record h ip), False)]"
              "list_all (\<lambda>e. is_sync (fst e))
                 [(CallExists h ''A'', True), (CallCreate (managed_record h ip), False)]"
              "if res = None
               then all_ok [(CallExists h ''A'', True), (CallCreate (managed_record h ip), False)]
               else stopped_at_failure
                 [(CallExists h ''A'', True), (CallCreate (managed_record h ip), False)]"
              by (auto simp: stopped_at_failure_def)
            then show ?thesis by blast
          qed
        qed
      qed
    qed
  qed
qed

lemma delete_hostnames_None:
  "delete_hostnames r hs w = (None, w') \<Longrightarrow>
     api_state w' = api_state w \<and> calls w' = calls w @ map delete_ok hs"
proof (induction hs arbitrary: w)
  case Nil
  then show ?case by simp
next
  case (Cons h hs)
  obtain res w1 where d: "do_Delete r h ''A'' w = (res, w1)" by (cases "do_Delete r h ''A'' w")
  with Cons.prems have res: "res = None" and rest: "delete_hostnames r hs w1 = (None, w')"
    by (auto split: option.splits)
  from do_Delete_effect[OF d] res Cons.IH[OF rest] show ?case
    by (simp add: delete_ok_def)
qed

lemma delete_hostnames_Some:
  "delete_hostnames r hs w = (Some e, w') \<Longrightarrow>
     api_state w' = api_state w \<and>
     (\<exists>n. n < length hs \<and>
        calls w' = calls w @ map delete_ok (take n hs) @ [delete_failed (hs ! n)])"
proof (induction hs arbitrary: w)
  case Nil
  then show ?case by simp
next
  case (Cons h hs)
  obtain res w1 where d: "do_Delete r h ''A'' w = (res, w1)" by (cases "do_Delete r h ''A'' w")
  show ?case
  proof (cases res)
    case None
    with Cons.prems d have rest: "delete_hostnames r hs w1 = (Some e, w')" by simp
    from Cons.IH[OF rest] obtain n where
      n: "n < length hs" and a: "api_state w' = api_state w1" and
      c: "calls w' = calls w1 @ map delete_ok (take n hs) @ [delete_failed (hs ! n)]" by blast
    have "Suc n < length (h # hs)" using n by simp
    moreover have "calls w' = calls w @ map delete_ok (take (Suc n) (h # hs)) @
             [delete_failed ((h # hs) ! Suc n)]"
      using c do_Delete_effect[OF d] None by (simp add: delete_ok_def)
    moreover have "api_state w' = api_state w" using a do_Delete_effect[OF d] by simp
    ultimately show ?thesis by blast
  next
    case (Some e')
    with Cons.prems d have "w' = w1" by simp
    with do_Delete_effect[OF d] Some have
      "api_state w' = api_state w"
      "calls w' = calls w @ map delete_ok (take 0 (h # hs)) @ [delete_failed ((h # hs) ! 0)]"
      "0 < length (h # hs)"
      by (simp_all add: delete_failed_def)
    then show ?thesis by blast
  qed
qed

lemma RetryOnConflict_calls:
  assumes step: "\<And>w res w'. fn w = (res, w') \<Longrightarrow>
      dns_state w' = dns_state w \<and>
      (\<exists>evs. calls w' = calls w @ evs \<and> list_all (store_event P) evs \<and>
         (res = None \<longrightarrow> evs \<noteq> [] \<and> good_write (last evs)))"
  shows "RetryOnConflict n c fn w = (res, w') \<Longrightarrow>
      dns_state w' = dns_state w \<and>
      (\<exists>evs. calls w' = calls w @ evs \<and> list_all (store_event P) evs \<and>
         (res = None \<and> 0 < n \<longrightarrow> evs \<noteq> [] \<and> good_write (last evs)))"
proof (induction n arbitrary: w)
  case 0
  then show ?case by simp
next
  case (Suc n)
  obtain res1 w1 where f: "fn w = (res1, w1)" by (cases "fn w")
  from step[OF f] obtain evs1 where
    d1: "dns_state w1 = dns_state w" and c1: "calls w1 = calls w @ evs1" and
    p1: "list_all (store_event P) evs1" and
    g1: "res1 = None \<longrightarrow> evs1 \<noteq> [] \<and> good_write (last evs1)" by blast
  show ?case
  proof (cases "\<exists>e. res1 = Some e \<and> c e \<and> n \<noteq> 0")
    case True
    with Suc.prems f have rest: "RetryOnConflict n c fn w1 = (res, w')" by auto
    from Suc.IH[OF rest] obtain evs where
      "dns_state w' = dns_state w1" "calls w' = calls w1 @ evs" "list_all (store_event P) evs"
      "res = None \<and> 0 < n \<longrightarrow> evs \<noteq> [] \<and> good_write (last evs)" by blast
    with d1 c1 p1 True have
      "dns_state w' = dns_state w" "calls w' = calls w @ (evs1 @ evs)"
      "list_all (store_event P) (evs1 @ evs)"
      "res = None \<and> 0 < Suc n \<longrightarrow> evs1 @ evs \<noteq> [] \<and> good_write (last (evs1 @ evs))"
      by auto
    then show ?thesis by blast
  next
    case False
    with Suc.prems f have "res = res1" "w' = w1" by (auto split: option.splits if_splits)
    with d1 c1 p1 g1 show ?thesis by auto
  qed
qed

lemma attempt_shape:
  assumes g: "do_Get r req w = (gres, w0)"
    and wr: "\<And>route. gres = Inr route \<Longrightarrow> do_Write r (f route) w0 = (res, w') \<and> P (f route)"
    and fl: "\<And>e. gres = Inl e \<Longrightarrow> res = Some e \<and> w' = w0"
  shows "dns_state w' = dns_state w \<and>
      (\<exists>evs. calls w' = calls w @ evs \<and> list_all (store_event P) evs \<and>
         (res = None \<longrightarrow> evs \<noteq> [] \<and> good_write (last evs)))"
proof (cases gres)
  case (Inl e)
  with fl[OF Inl] do_Get_effect[OF g] have
    "dns_state w' = dns_state w" "calls w' = calls w @ [(CallGet req, False)]"
    "list_all (store_event P) [(CallGet req, False)]" "res \<noteq> None" by auto
  then show ?thesis by blast
next
  case (Inr route)
  from wr[OF Inr] have w: "do_Write r (f route) w0 = (res, w')" and p: "P (f route)" by auto
  from do_Write_effect[OF w] do_Get_effect[OF g] Inr p have
    "dns_state w' = dns_state w"
    "calls w' = calls w @ [(CallGet req, True), (CallWrite (f route), res = None)]"
    "list_all (store_event P) [(CallGet req, True), (CallWrite (f route), res = None)]"
    "res = None \<longrightarrow> good_write (last [(CallGet req, True), (CallWrite (f route), res = None)])"
    by auto
  then show ?thesis by blast
qed

lemma remove_finalizer_attempt_shape:
  "remove_finalizer_attempt r req w = (res, w') \<Longrightarrow>
     dns_state w' = dns_state w \<and>
      (\<exists>evs. calls w' = calls w @ evs \<and>
         list_all (store_event (\<lambda>rt. \<not> ContainsFinalizer rt finalizerName)) evs \<and>
         (res = None \<longrightarrow> evs \<noteq> [] \<and> good_write (last evs)))"
proof -
  assume a: "remove_finalizer_attempt r req w = (res, w')"
  obtain gres w0 where g: "do_Get r req w = (gres, w0)" by (cases "do_Get r req w")
  show ?thesis
  proof (rule attempt_shape[OF g, where f = "\<lambda>rt. RemoveFinalizer rt finalizerName"])
    fix route assume "gres = Inr route"
    with a g show "do_Write r (RemoveFinalizer route finalizerName) w0 = (res, w') \<and>
        \<not> ContainsFinalizer (RemoveFinalizer route finalizerName) finalizerName"
      by (simp add: remove_finalizer_attempt_def ContainsFinalizer_def RemoveFinalizer_def)
  next
    fix e assume "gres = Inl e"
    with a g show "res = Some e \<and> w' = w0" by (simp add: remove_finalizer_attempt_def)
  qed
qed

lemma update_annotation_attempt_shape:
  "update_annotation_attempt lib r req cur w = (res, w') \<Longrightarrow>
     dns_state w' = dns_state w \<and>
      (\<exists>evs. calls w' = calls w @ evs \<and>
         list_all (store_event (carries_managed lib cur)) evs \<and>
         (res = None \<longrightarrow> evs \<noteq> [] \<and> good_write (last evs)))"
proof -
  assume a: "update_annotation_attempt lib r req cur w = (res, w')"
  obtain gres w0 where g: "do_Get r req w = (gres, w0)" by (cases "do_Get r req w")
  show ?thesis
  proof (rule attempt_shape[OF g, where f = "\<lambda>rt. rt\<lparr>Annotations :=
               annotation_set (Annotations rt) managedHostnamesAnnotation
                 (json_Marshal lib cur)\<rparr>"])
    fix route assume "gres = Inr route"
    with a g show "do_Write r (route\<lparr>Annotations :=
               annotation_set (Annotations route) managedHostnamesAnnotation
                 (json_Marshal lib cur)\<rparr>) w0 = (res, w') \<and>
        carries_managed lib cur (route\<lparr>Annotations :=
               annotation_set (Annotations route) managedHostnamesAnnotation
                 (json_Marshal lib cur)\<rparr>)"
      by (simp add: update_annotation_attempt_def carries_managed_def annotation_get_def
          annotation_set_def Let_def)
  next
    fix e assume "gres = Inl e"
    with a g show "res = Some e \<and> w' = w0" by (simp add: update_annotation_attempt_def)
  qed
qed

lemma retry_update_annotation:
  assumes a: "RetryOnConflict n c (update_annotation_attempt lib r req cur) w = (res, w')"
  shows "dns_state w' = dns_state w \<and>
      (\<exists>evs. calls w' = calls w @ evs \<and> list_all (store_event (carries_managed lib cur)) evs \<and>
         (res = None \<and> 0 < n \<longrightarrow> evs \<noteq> [] \<and> good_write (last evs)))"
  by (rule RetryOnConflict_calls[OF _ a]) (rule update_annotation_attempt_shape)

lemma retry_remove_finalizer:
  assumes a: "RetryOnConflict n c (remove_finalizer_attempt r req) w = (res, w')"
  shows "dns_state w' = dns_state w \<and>
      (\<exists>evs. calls w' = calls w @ evs \<and>
         list_all (store_event (\<lambda>rt. \<not> ContainsFinalizer rt finalizerName)) evs \<and>
         (res = None \<and> 0 < n \<longrightarrow> evs \<noteq> [] \<and> good_write (last evs)))"
  by (rule RetryOnConflict_calls[OF _ a]) (rule remove_finalizer_attempt_shape)

lemma pass_calls_eq:
  "calls (snd (Reconcile lib r req w)) = calls w @ evs \<Longrightarrow> pass_calls lib r req w = evs"
  by (simp add: pass_calls_def)

lemma reconcile_active_shape:
  assumes a: "reconcile_active lib r req route w = (res, w')"
  shows "(\<exists>n. n < length (removed_hostnames (range_of (read_managedHostnames lib route)) (Hostnames route)) \<and>
            res \<noteq> None \<and> api_state w' = api_state w \<and>
            calls w' = calls w @
              map delete_ok (take n (removed_hostnames (range_of (read_managedHostnames lib route)) (Hostnames route))) @
              [delete_failed (removed_hostnames (range_of (read_managedHostnames lib route)) (Hostnames route) ! n)])
       \<or> (\<exists>cs. res \<noteq> None \<and> api_state w' = api_state w \<and>
            calls w' = calls w @
              map delete_ok (removed_hostnames (range_of (read_managedHostnames lib route)) (Hostnames route)) @ cs \<and>
            list_all (\<lambda>e. is_sync (fst e)) cs \<and> stopped_at_failure cs)
       \<or> (\<exists>cs ws.
            calls w' = calls w @
              map delete_ok (removed_hostnames (range_of (read_managedHostnames lib route)) (Hostnames route)) @ cs @ ws \<and>
            list_all (\<lambda>e. is_sync (fst e)) cs \<and> all_ok cs \<and>
            list_all (store_event (carries_managed lib (Hostnames route))) ws \<and>
            (read_managedHostnames lib route = Some (Hostnames route) \<longrightarrow>
               ws = [] \<and> res = None \<and> api_state w' = api_state w) \<and>
            (read_managedHostnames lib route \<noteq> Some (Hostnames route) \<and> res = None \<longrightarrow>
               ws \<noteq> [] \<and> good_write (last ws)))"
    (is "?A \<or> ?B \<or> ?C")
proof -
  let ?prev = "range_of (read_managedHostnames lib route)"
  let ?rem = "removed_hostnames ?prev (Hostnames route)"
  obtain res1 w1 where d: "delete_removed r (Hostnames route) ?prev w = (res1, w1)"
    by (cases "delete_removed r (Hostnames route) ?prev w")
  show ?thesis
  proof (cases res1)
    case (Some e)
    with a d have "res = Some e" "w' = w1" by (simp_all add: reconcile_active_def Let_def)
    with delete_removed_Some[OF d[unfolded Some]] have ?A by auto
    then show ?thesis by blast
  next
    case None
    note d1 = delete_removed_None[OF d[unfolded None]]
    obtain res2 w2 where s: "sync_hostnames r (Hostnames route) w1 = (res2, w2)"
      by (cases "sync_hostnames r (Hostnames route) w1")
    from sync_hostnames_calls[OF s] obtain cs where
      a2: "api_state w2 = api_state w1" and c2: "calls w2 = calls w1 @ cs" and
      sy: "list_all (\<lambda>e. is_sync (fst e)) cs" and
      ok: "if res2 = None then all_ok cs else stopped_at_failure cs" by blast
    show ?thesis
    proof (cases res2)
      case (Some e)
      with a d None s have "res = Some e" "w' = w2" by (simp_all add: reconcile_active_def Let_def)
      with d1 a2 c2 sy ok Some have ?B by auto
      then show ?thesis by blast
    next
      case n2: None
      show ?thesis
      proof (cases "read_managedHostnames lib route = Some (Hostnames route)")
        case True
        with a d None s n2 have "res = None" "w' = w2"
          by (simp_all add: reconcile_active_def Let_def DeepEqual_def)
        with d1 a2 c2 sy ok n2 True have
          "calls w' = calls w @ map delete_ok ?rem @ cs @ []"
          "list_all (\<lambda>e. is_sync (fst e)) cs" "all_ok cs"
          "list_all (store_event (carries_managed lib (Hostnames route))) []"
          "read_managedHostnames lib route = Some (Hostnames route) \<longrightarrow>
               [] = ([] :: (call \<times> bool) list) \<and> res = None \<and> api_state w' = api_state w"
          "read_managedHostnames lib route \<noteq> Some (Hostnames route) \<and> res = None \<longrightarrow>
               ([] :: (call \<times> bool) list) \<noteq> [] \<and> good_write (last [])"
          by auto
        then have ?C by blast
        then show ?thesis by blast
      next
        case False
        obtain res3 w3 where rt: "RetryOnConflict DefaultRetry_Steps (IsConflict lib)
              (update_annotation_attempt lib r req (Hostnames route)) w2 = (res3, w3)"
          by (cases "RetryOnConflict DefaultRetry_Steps (IsConflict lib)
              (update_annotation_attempt lib r req (Hostnames route)) w2")
        from retry_update_annotation[OF rt] obtain ws where
          c3: "calls w3 = calls w2 @ ws" and
          st: "list_all (store_event (carries_managed lib (Hostnames route))) ws" and
          gw: "res3 = None \<and> 0 < DefaultRetry_Steps \<longrightarrow> ws \<noteq> [] \<and> good_write (last ws)"
          by blast
        from a d None s n2 False rt have r3: "(res = None) = (res3 = None)" and w3: "w' = w3"
          by (auto simp: reconcile_active_def Let_def DeepEqual_def split: option.splits)
        from d1 c2 c3 w3 sy ok n2 st gw r3 False have
          "calls w' = calls w @ map delete_ok ?rem @ cs @ ws"
          "list_all (\<lambda>e. is_sync (fst e)) cs" "all_ok cs"
          "list_all (store_event (carries_managed lib (Hostnames route))) ws"
          "read_managedHostnames lib route = Some (Hostnames route) \<longrightarrow>
               ws = [] \<and> res = None \<and> api_state w' = api_state w"
          "read_managedHostnames lib route \<noteq> Some (Hostnames route) \<and> res = None \<longrightarrow>
               ws \<noteq> [] \<and> good_write (last ws)"
          by (auto simp: DefaultRetry_Steps_def)
        then have ?C by blast
        then show ?thesis by blast
      qed
    qed
  qed
qed

lemma Reconcile_steady:
  assumes "steady_state r req w route"
  shows "Reconcile lib r req w =
           reconcile_active lib r req route (w\<lparr>calls := calls w @ [(CallGet req, True)]\<rparr>)"
  using assms by (simp add: Reconcile_def steady_state_def do_Get_def Let_def)

lemma steady_pass_shape:
  assumes st: "steady_state r req w route"
  shows "(\<exists>n. n < length (removed_of lib route) \<and>
            fst (Reconcile lib r req w) \<noteq> None \<and>
            api_state (snd (Reconcile lib r req w)) = api_state w \<and>
            pass_calls lib r req w =
              (CallGet req, True) # map delete_ok (take n (removed_of lib route)) @
              [delete_failed (removed_of lib route ! n)])
       \<or> (\<exists>cs. fst (Reconcile lib r req w) \<noteq> None \<and>
            api_state (snd (Reconcile lib r req w)) = api_state w \<and>
            pass_calls lib r req w =
              (CallGet req, True) # map delete_ok (removed_of lib route) @ cs \<and>
            list_all (\<lambda>e. is_sync (fst e)) cs \<and> stopped_at_failure cs)
       \<or> (\<exists>cs ws.
            pass_calls lib r req w =
              (CallGet req, True) # map delete_ok (removed_of lib route) @ cs @ ws \<and>
            list_all (\<lambda>e. is_sync (fst e)) cs \<and> all_ok cs \<and>
            list_all (store_event (carries_managed lib (Hostnames route))) ws \<and>
            (read_managedHostnames lib route = Some (Hostnames route) \<longrightarrow>
               ws = [] \<and> fst (Reconcile lib r req w) = None \<and>
               api_state (snd (Reconcile lib r req w)) = api_state w) \<and>
            (read_managedHostnames lib route \<noteq> Some (Hostnames route) \<and>
               fst (Reconcile lib r req w) = None \<longrightarrow>
               ws \<noteq> [] \<and> good_write (last ws)))"
proof -
  let ?w0 = "w\<lparr>calls := calls w @ [(CallGet req, True)]\<rparr>"
  obtain res w' where a: "reconcile_active lib r req route ?w0 = (res, w')"
    by (cases "reconcile_active lib r req route ?w0")
  have R: "Reconcile lib r req w = (res, w')" using Reconcile_steady[OF st] a by simp
  have pc: "\<And>evs. calls w' = calls ?w0 @ evs \<Longrightarrow>
              pass_calls lib r req w = (CallGet req, True) # evs"
    using R by (simp add: pass_calls_def)
  from reconcile_active_shape[OF a] show ?thesis
    unfolding removed_of_def R fst_conv snd_conv
    apply (elim disjE exE conjE)
    subgoal for n
      apply (rule disjI1)
      apply (rule exI[of _ n])
      apply (simp add: pc)
      done
    subgoal for cs
      apply (rule disjI2, rule disjI1)
      apply (rule exI[of _ cs])
      apply (simp add: pc)
      done
    subgoal for cs ws
      apply (rule disjI2, rule disjI2)
      apply (rule exI[of _ cs], rule exI[of _ ws])
      apply (simp add: pc)
      done
    done
qed

lemma sync_not_delete:
  "list_all (\<lambda>e. is_sync (fst e)) cs \<Longrightarrow> filter (\<lambda>e. is_delete (fst e)) cs = []"
  by (induction cs) (auto elim: is_sync.elims)

lemma store_not_delete:
  "list_all (store_event P) ws \<Longrightarrow> filter (\<lambda>e. is_delete (fst e)) ws = []"
  by (induction ws) (auto elim: store_event.elims)

lemma filter_delete_ok:
  "filter (\<lambda>e. is_delete (fst e)) (map delete_ok hs) = map delete_ok hs"
  by (induction hs) (auto simp: delete_ok_def)

lemma steady_delete_events:
  assumes st: "steady_state r req w route"
  shows "\<exists>n. n \<le> length (removed_of lib route) \<and>
           filter (\<lambda>e. is_delete (fst e)) (pass_calls lib r req w) =
             map delete_ok (take n (removed_of lib route)) @
             (if n < length (removed_of lib route)
              then [delete_failed (removed_of lib route ! n)] else []) \<and>
           (n < length (removed_of lib route) \<longrightarrow> fst (Reconcile lib r req w) \<noteq> None)"
  using steady_pass_shape[OF st, of lib]
proof (elim disjE exE conjE)
  fix n
  assume "n < length (removed_of lib route)" "fst (Reconcile lib r req w) \<noteq> None"
    "pass_calls lib r req w =
       (CallGet req, True) # map delete_ok (take n (removed_of lib route)) @
       [delete_failed (removed_of lib route ! n)]"
  then show ?thesis
    by (intro exI[of _ n]) (simp add: filter_delete_ok delete_failed_def)
next
  fix cs
  assume "pass_calls lib r req w = (CallGet req, True) # map delete_ok (removed_of lib route) @ cs"
    "list_all (\<lambda>e. is_sync (fst e)) cs"
  then show ?thesis
    by (intro exI[of _ "length (removed_of lib route)"])
       (simp add: filter_delete_ok sync_not_delete)
next
  fix cs ws
  assume "pass_calls lib r req w =
       (CallGet req, True) # map delete_ok (removed_of lib route) @ cs @ ws"
    "list_all (\<lambda>e. is_sync (fst e)) cs"
    "list_all (store_event (carries_managed lib (Hostnames route))) ws"
  then show ?thesis
    by (intro exI[of _ "length (removed_of lib route)"])
       (simp add: filter_delete_ok sync_not_delete store_not_delete)
qed

lemma Reconcile_deleting:
  assumes "deleting r req w route"
  shows "Reconcile lib r req w =
           reconcile_deleting lib r req route (w\<lparr>calls := calls w @ [(CallGet req, True)]\<rparr>)"
  using assms by (simp add: Reconcile_def deleting_def do_Get_def Let_def)

lemma split_order:
  assumes "tr = ds @ cs" and "list_all (\<lambda>e. \<not> M e) ds" and "list_all (\<lambda>e. \<not> D e) cs"
    and "i < length tr" and "j < length tr" and "D (tr ! i)" and "M (tr ! j)"
  shows "i < j"
proof -
  have i: "i < length ds"
  proof (rule ccontr)
    assume "\<not> i < length ds"
    with assms(1,4) have "tr ! i = cs ! (i - length ds)" "i - length ds < length cs"
      by (auto simp: nth_append)
    with assms(3,6) show False by (auto simp: list_all_length)
  qed
  have j: "length ds \<le> j"
  proof (rule ccontr)
    assume "\<not> length ds \<le> j"
    with assms(1) have "tr ! j = ds ! j" "j < length ds" by (auto simp: nth_append)
    with assms(2,7) show False by (auto simp: list_all_length)
  qed
  from i j show ?thesis by simp
qed

lemma sync_no_delete:
  "list_all (\<lambda>e. is_sync (fst e)) cs \<Longrightarrow> list_all (\<lambda>e. \<not> is_delete (fst e)) cs"
  by (induction cs) (auto elim: is_sync.elims)

lemma store_no_delete:
  "list_all (store_event P) ws \<Longrightarrow> list_all (\<lambda>e. \<not> is_delete (fst e)) ws"
  by (induction ws) (auto elim: store_event.elims)

lemma delete_ok_no_mutation: "list_all (\<lambda>e. \<not> is_mutation (fst e)) (map delete_ok hs)"
  by (induction hs) (auto simp: delete_ok_def)

lemma steady_split:
  assumes st: "steady_state r req w route"
  shows "\<exists>ds cs. pass_calls lib r req w = ds @ cs \<and>
           list_all (\<lambda>e. \<not> is_mutation (fst e)) ds \<and>
           list_all (\<lambda>e. \<not> is_delete (fst e)) cs"
  using steady_pass_shape[OF st, of lib]
proof (elim disjE exE conjE)
  fix n
  assume "pass_calls lib r req w =
       (CallGet req, True) # map delete_ok (take n (removed_of lib route)) @
       [delete_failed (removed_of lib route ! n)]"
  then have "pass_calls lib r req w =
       ((CallGet req, True) # map delete_ok (take n (removed_of lib route)) @
       [delete_failed (removed_of lib route ! n)]) @ []"
    "list_all (\<lambda>e. \<not> is_mutation (fst e))
       ((CallGet req, True) # map delete_ok (take n (removed_of lib route)) @
       [delete_failed (removed_of lib route ! n)])"
    "list_all (\<lambda>e. \<not> is_delete (fst e)) []"
    by (simp_all add: delete_ok_no_mutation delete_failed_def)
  then show ?thesis by blast
next
  fix cs
  assume "pass_calls lib r req w = (CallGet req, True) # map delete_ok (removed_of lib route) @ cs"
    "list_all (\<lambda>e. is_sync (fst e)) cs"
  then have "pass_calls lib r req w =
       ((CallGet req, True) # map delete_ok (removed_of lib route)) @ cs"
    "list_all (\<lambda>e. \<not> is_mutation (fst e))
       ((CallGet req, True) # map delete_ok (removed_of lib route))"
    "list_all (\<lambda>e. \<not> is_delete (fst e)) cs"
    by (simp_all add: delete_ok_no_mutation sync_no_delete)
  then show ?thesis by blast
next
  fix cs ws
  assume "pass_calls lib r req w =
       (CallGet req, True) # map delete_ok (removed_of lib route) @ cs @ ws"
    "list_all (\<lambda>e. is_sync (fst e)) cs"
    "list_all (store_event (carries_managed lib (Hostnames route))) ws"
  then have "pass_calls lib r req w =
       ((CallGet req, True) # map delete_ok (removed_of lib route)) @ (cs @ ws)"
    "list_all (\<lambda>e. \<not> is_mutation (fst e))
       ((CallGet req, True) # map delete_ok (removed_of lib route))"
    "list_all (\<lambda>e. \<not> is_delete (fst e)) (cs @ ws)"
    by (simp_all add: delete_ok_no_mutation sync_no_delete store_no_delete)
  then show ?thesis by blast
qed

lemma not_write_delete_ok: "\<not> list_ex (\<lambda>e. is_write (fst e)) (map delete_ok hs)"
  by (induction hs) (auto simp: delete_ok_def)

lemma not_write_sync:
  "list_all (\<lambda>e. is_sync (fst e)) cs \<Longrightarrow> \<not> list_ex (\<lambda>e. is_write (fst e)) cs"
  by (induction cs) (auto elim: is_sync.elims)

lemma good_write_last:
  assumes "list_all (store_event P) ws" and "ws \<noteq> []" and "good_write (last ws)"
  shows "\<exists>rt. last ws = (CallWrite rt, True) \<and> P rt"
proof -
  from assms(1,2) have s: "store_event P (last ws)" by (simp add: list_all_iff)
  obtain c ok where l: "last ws = (c, ok)" by (cases "last ws")
  with assms(3) s show ?thesis by (cases c) auto
qed

lemma all_ok_no_failure: "all_ok cs \<Longrightarrow> \<not> list_ex (\<lambda>e. is_dns (fst e) \<and> \<not> snd e) cs"
  by (induction cs) (auto simp: all_ok_def)

lemma store_no_dns:
  "list_all (store_event P) ws \<Longrightarrow> \<not> list_ex (\<lambda>e. is_dns (fst e) \<and> \<not> snd e) ws"
  by (induction ws) (auto elim: store_event.elims)

lemma delete_ok_no_failure: "\<not> list_ex (\<lambda>e. is_dns (fst e) \<and> \<not> snd e) (map delete_ok hs)"
  by (induction hs) (auto simp: delete_ok_def)

lemma sync_last_dns:
  "list_all (\<lambda>e. is_sync (fst e)) cs \<Longrightarrow> cs \<noteq> [] \<Longrightarrow> is_dns (fst (last cs))"
proof -
  assume a: "list_all (\<lambda>e. is_sync (fst e)) cs" "cs \<noteq> []"
  then have "is_sync (fst (last cs))" by (simp add: list_all_iff)
  then show ?thesis by (cases "fst (last cs)") auto
qed

lemma deleted_hostnames_filter:
  "deleted_hostnames evs = deleted_hostnames (filter (\<lambda>e. is_delete (fst e)) evs)"
  by (induction evs rule: deleted_hostnames.induct) auto

lemma deleted_hostnames_ok: "deleted_hostnames (map delete_ok hs) = hs"
  by (induction hs) (auto simp: delete_ok_def)

lemma count_list_filter:
  "count_list (filter P xs) x = (if P x then count_list xs x else 0)"
  by (induction xs) auto

subsection \<open>The record of calls accounts for the states\<close>

lemma replay_append:
  "replay r s (xs @ ys) = (case replay r s xs of None \<Rightarrow> None | Some s' \<Rightarrow> replay r s' ys)"
  by (induction r s xs rule: replay.induct) (auto split: prod.splits)

lemma traced_refl: "traced r w w"
  by (simp add: traced_def)

lemma traced_trans: "traced r w w1 \<Longrightarrow> traced r w1 w2 \<Longrightarrow> traced r w w2"
proof -
  assume "traced r w w1" "traced r w1 w2"
  then obtain xs ys where
    x: "calls w1 = calls w @ xs" "replay r (dns_state w, api_state w) xs = Some (dns_state w1, api_state w1)"
    and y: "calls w2 = calls w1 @ ys" "replay r (dns_state w1, api_state w1) ys = Some (dns_state w2, api_state w2)"
    by (auto simp: traced_def)
  then have "calls w2 = calls w @ (xs @ ys)"
    "replay r (dns_state w, api_state w) (xs @ ys) = Some (dns_state w2, api_state w2)"
    by (simp_all add: replay_append)
  then show ?thesis unfolding traced_def by blast
qed

lemma traced_single:
  assumes "calls w' = calls w @ [ev]"
    and "replay r (dns_state w, api_state w) [ev] = Some (dns_state w', api_state w')"
  shows "traced r w w'"
  using assms unfolding traced_def by blast

lemma traced_do_Delete: "do_Delete r h t w = (res, w') \<Longrightarrow> traced r w w'"
  by (rule traced_single[where ev = "(CallDelete h t, res = None)"])
     (auto simp: do_Delete_def split: prod.splits)

lemma traced_do_Exists: "do_Exists r h t w = (res, w') \<Longrightarrow> traced r w w'"
  by (rule traced_single[where ev = "(CallExists h t, \<not> isl res)"])
     (auto simp: do_Exists_def split: prod.splits)

lemma traced_do_Create: "do_Create r record w = (res, w') \<Longrightarrow> traced r w w'"
  by (rule traced_single[where ev = "(CallCreate record, res = None)"])
     (auto simp: do_Create_def split: prod.splits)

lemma traced_do_Upsert: "do_Upsert r record w = (res, w') \<Longrightarrow> traced r w w'"
  by (rule traced_single[where ev = "(CallUpsert record, res = None)"])
     (auto simp: do_Upsert_def split: prod.splits)

lemma traced_do_Get: "do_Get r req w = (res, w') \<Longrightarrow> traced r w w'"
  by (rule traced_single[where ev = "(CallGet req, \<not> isl res)"])
     (auto simp: do_Get_def Let_def)

lemma traced_do_Write: "do_Write r route w = (res, w') \<Longrightarrow> traced r w w'"
  by (rule traced_single[where ev = "(CallWrite route, res = None)"])
     (auto simp: do_Write_def split: prod.splits)

lemma traced_delete_hostnames: "delete_hostnames r hs w = (res, w') \<Longrightarrow> traced r w w'"
proof (induction hs arbitrary: w)
  case Nil
  then show ?case by (simp add: traced_refl)
next
  case (Cons h hs)
  obtain res1 w1 where d: "do_Delete r h ''A'' w = (res1, w1)" by (cases "do_Delete r h ''A'' w")
  show ?case
  proof (cases res1)
    case None
    with Cons.prems d have "delete_hostnames r hs w1 = (res, w')" by simp
    from traced_trans[OF traced_do_Delete[OF d] Cons.IH[OF this]] show ?thesis .
  next
    case (Some e)
    with Cons.prems d have "w' = w1" by simp
    with traced_do_Delete[OF d] show ?thesis by simp
  qed
qed

lemma traced_delete_removed: "delete_removed r cur prev w = (res, w') \<Longrightarrow> traced r w w'"
proof (induction prev arbitrary: w)
  case Nil
  then show ?case by (simp add: traced_refl)
next
  case (Cons h prev)
  show ?case
  proof (cases "Contains cur h")
    case True
    with Cons show ?thesis by simp
  next
    case False
    obtain res1 w1 where d: "do_Delete r h ''A'' w = (res1, w1)" by (cases "do_Delete r h ''A'' w")
    show ?thesis
    proof (cases res1)
      case None
      with Cons.prems d False have "delete_removed r cur prev w1 = (res, w')" by simp
      from traced_trans[OF traced_do_Delete[OF d] Cons.IH[OF this]] show ?thesis .
    next
      case (Some e)
      with Cons.prems d False have "w' = w1" by simp
      with traced_do_Delete[OF d] show ?thesis by simp
    qed
  qed
qed

lemma traced_sync_hostnames: "sync_hostnames r hs w = (res, w') \<Longrightarrow> traced r w w'"
proof (induction hs arbitrary: w)
  case Nil
  then show ?case by (simp add: traced_refl)
next
  case (Cons h hs)
  obtain ip ok where l: "LookupIP (DomainMap r) h = (ip, ok)" by (cases "LookupIP (DomainMap r) h")
  show ?case
  proof (cases ok)
    case False
    with Cons l show ?thesis by simp
  next
    case True
    note ok = True
    show ?thesis
    proof (cases "UpsertMode r")
      case True
      obtain res1 w1 where u: "do_Upsert r (managed_record h ip) w = (res1, w1)"
        by (cases "do_Upsert r (managed_record h ip) w")
      show ?thesis
      proof (cases res1)
        case None
        with Cons.prems l ok True u have "sync_hostnames r hs w1 = (res, w')" by simp
        from traced_trans[OF traced_do_Upsert[OF u] Cons.IH[OF this]] show ?thesis .
      next
        case (Some e)
        with Cons.prems l ok True u have "w' = w1" by simp
        with traced_do_Upsert[OF u] show ?thesis by simp
      qed
    next
      case False
      obtain res1 w1 where x: "do_Exists r h ''A'' w = (res1, w1)"
        by (cases "do_Exists r h ''A'' w")
      show ?thesis
      proof (cases res1)
        case (Inl e)
        with Cons.prems l ok False x have "w' = w1" by simp
        with traced_do_Exists[OF x] show ?thesis by simp
      next
        case (Inr exists)
        show ?thesis
        proof (cases exists)
          case True
          with Cons.prems l ok False x Inr have "sync_hostnames r hs w1 = (res, w')" by simp
          from traced_trans[OF traced_do_Exists[OF x] Cons.IH[OF this]] show ?thesis .
        next
          case nex: False
          obtain res2 w2 where c: "do_Create r (managed_record h ip) w1 = (res2, w2)"
            by (cases "do_Create r (managed_record h ip) w1")
          note t2 = traced_trans[OF traced_do_Exists[OF x] traced_do_Create[OF c]]
          show ?thesis
          proof (cases res2)
            case None
            with Cons.prems l ok False x Inr nex c
            have "sync_hostnames r hs w2 = (res, w')" by simp
            from traced_trans[OF t2 Cons.IH[OF this]] show ?thesis .
          next
            case (Some e)
            with Cons.prems l ok False x Inr nex c have "w' = w2" by simp
            with t2 show ?thesis by simp
          qed
        qed
      qed
    qed
  qed
qed

lemma traced_attempt:
  assumes g: "do_Get r req w = (gres, w0)"
    and wr: "\<And>route. gres = Inr route \<Longrightarrow> do_Write r (f route) w0 = (res, w')"
    and fl: "\<And>e. gres = Inl e \<Longrightarrow> w' = w0"
  shows "traced r w w'"
proof (cases gres)
  case (Inl e)
  with fl traced_do_Get[OF g] show ?thesis by simp
next
  case (Inr route)
  from traced_trans[OF traced_do_Get[OF g] traced_do_Write[OF wr[OF Inr]]] show ?thesis .
qed

lemma traced_remove_finalizer_attempt:
  "remove_finalizer_attempt r req w = (res, w') \<Longrightarrow> traced r w w'"
proof -
  assume a: "remove_finalizer_attempt r req w = (res, w')"
  obtain gres w0 where g: "do_Get r req w = (gres, w0)" by (cases "do_Get r req w")
  show ?thesis
    by (rule traced_attempt[OF g, where f = "\<lambda>rt. RemoveFinalizer rt finalizerName"])
       (use a g in \<open>simp_all add: remove_finalizer_attempt_def\<close>)
qed

lemma traced_add_finalizer_attempt:
  "add_finalizer_attempt r req w = (res, w') \<Longrightarrow> traced r w w'"
proof -
  assume a: "add_finalizer_attempt r req w = (res, w')"
  obtain gres w0 where g: "do_Get r req w = (gres, w0)" by (cases "do_Get r req w")
  show ?thesis
    by (rule traced_attempt[OF g, where f = "\<lambda>rt. AddFinalizer rt finalizerName"])
       (use a g in \<open>simp_all add: add_finalizer_attempt_def\<close>)
qed

lemma traced_update_annotation_attempt:
  "update_annotation_attempt lib r req cur w = (res, w') \<Longrightarrow> traced r w w'"
proof -
  assume a: "update_annotation_attempt lib r req cur w = (res, w')"
  obtain gres w0 where g: "do_Get r req w = (gres, w0)" by (cases "do_Get r req w")
  show ?thesis
    by (rule traced_attempt[OF g, where f = "\<lambda>rt. rt\<lparr>Annotations :=
               annotation_set (Annotations rt) managedHostnamesAnnotation
                 (json_Marshal lib cur)\<rparr>"])
       (use a g in \<open>simp_all add: update_annotation_attempt_def\<close>)
qed

lemma traced_RetryOnConflict:
  assumes step: "\<And>w res w'. fn w = (res, w') \<Longrightarrow> traced r w w'"
  shows "RetryOnConflict n c fn w = (res, w') \<Longrightarrow> traced r w w'"
proof (induction n arbitrary: w)
  case 0
  then show ?case by (simp add: traced_refl)
next
  case (Suc n)
  obtain res1 w1 where f: "fn w = (res1, w1)" by (cases "fn w")
  show ?case
  proof (cases "\<exists>e. res1 = Some e \<and> c e \<and> n \<noteq> 0")
    case True
    with Suc.prems f have "RetryOnConflict n c fn w1 = (res, w')" by auto
    from traced_trans[OF step[OF f] Suc.IH[OF this]] show ?thesis .
  next
    case False
    with Suc.prems f have "w' = w1" by (auto split: option.splits if_splits)
    with step[OF f] show ?thesis by simp
  qed
qed

lemma RetryOnConflict_success:
  "RetryOnConflict n c fn w = (None, w') \<Longrightarrow> 0 < n \<Longrightarrow> \<exists>w1. fn w1 = (None, w')"
proof (induction n arbitrary: w)
  case 0
  then show ?case by simp
next
  case (Suc n)
  obtain res1 w1 where f: "fn w = (res1, w1)" by (cases "fn w")
  show ?case
  proof (cases "\<exists>e. res1 = Some e \<and> c e \<and> n \<noteq> 0")
    case True
    with Suc.prems f have "RetryOnConflict n c fn w1 = (None, w')" "0 < n" by auto
    from Suc.IH[OF this] show ?thesis .
  next
    case False
    with Suc.prems f have "res1 = None" "w' = w1" by (auto split: option.splits if_splits)
    with f show ?thesis by blast
  qed
qed

lemma do_Write_state:
  "do_Write r route w = (res, w') \<Longrightarrow> Client_Update r route (api_state w) = (res, api_state w')"
  by (auto simp: do_Write_def split: prod.splits)

lemma remove_finalizer_attempt_success:
  "remove_finalizer_attempt r req w = (None, w') \<Longrightarrow>
     \<exists>k fresh. APIReader_Get r req k = Inr fresh \<and>
        Client_Update r (RemoveFinalizer fresh finalizerName) k = (None, api_state w')"
proof -
  assume a: "remove_finalizer_attempt r req w = (None, w')"
  obtain gres w0 where g: "do_Get r req w = (gres, w0)" by (cases "do_Get r req w")
  from a g obtain fresh where i: "gres = Inr fresh"
    and wr: "do_Write r (RemoveFinalizer fresh finalizerName) w0 = (None, w')"
    by (cases gres) (auto simp: remove_finalizer_attempt_def)
  from g i have "APIReader_Get r req (api_state w0) = Inr fresh"
    by (auto simp: do_Get_def Let_def)
  with do_Write_state[OF wr] show ?thesis by blast
qed

lemma update_annotation_attempt_success:
  "update_annotation_attempt lib r req cur w = (None, w') \<Longrightarrow>
     \<exists>k fresh. APIReader_Get r req k = Inr fresh \<and>
        Client_Update r
          (fresh\<lparr>Annotations := annotation_set (Annotations fresh) managedHostnamesAnnotation
                                  (json_Marshal lib cur)\<rparr>) k = (None, api_state w')"
proof -
  assume a: "update_annotation_attempt lib r req cur w = (None, w')"
  obtain gres w0 where g: "do_Get r req w = (gres, w0)" by (cases "do_Get r req w")
  from a g obtain fresh where i: "gres = Inr fresh"
    and wr: "do_Write r (fresh\<lparr>Annotations := annotation_set (Annotations fresh)
               managedHostnamesAnnotation (json_Marshal lib cur)\<rparr>) w0 = (None, w')"
    by (cases gres) (auto simp: update_annotation_attempt_def)
  from g i have "APIReader_Get r req (api_state w0) = Inr fresh"
    by (auto simp: do_Get_def Let_def)
  with do_Write_state[OF wr] show ?thesis by blast
qed

lemma traced_reconcile_deleting:
  "reconcile_deleting lib r req route w = (res, w') \<Longrightarrow> traced r w w'"
proof -
  assume a: "reconcile_deleting lib r req route w = (res, w')"
  show ?thesis
  proof (cases "ContainsFinalizer route finalizerName")
    case False
    with a show ?thesis by (simp add: reconcile_deleting_def traced_refl)
  next
    case True
    obtain res1 w1 where d: "delete_hostnames r (Hostnames route) w = (res1, w1)"
      by (cases "delete_hostnames r (Hostnames route) w")
    show ?thesis
    proof (cases res1)
      case (Some e)
      with a d True have "w' = w1" by (simp add: reconcile_deleting_def)
      with traced_delete_hostnames[OF d] show ?thesis by simp
    next
      case None
      obtain res3 w3 where rt: "RetryOnConflict DefaultRetry_Steps (IsConflict lib)
            (remove_finalizer_attempt r req) w1 = (res3, w3)"
        by (cases "RetryOnConflict DefaultRetry_Steps (IsConflict lib)
            (remove_finalizer_attempt r req) w1")
      with a d None True have "w' = w3"
        by (auto simp: reconcile_deleting_def split: option.splits)
      with traced_trans[OF traced_delete_hostnames[OF d]
          traced_RetryOnConflict[OF traced_remove_finalizer_attempt rt]]
      show ?thesis by simp
    qed
  qed
qed

lemma traced_reconcile_unmanaged:
  "reconcile_unmanaged lib r req w = (res, w') \<Longrightarrow> traced r w w'"
proof -
  assume a: "reconcile_unmanaged lib r req w = (res, w')"
  obtain res3 w3 where rt: "RetryOnConflict DefaultRetry_Steps (IsConflict lib)
        (add_finalizer_attempt r req) w = (res3, w3)"
    by (cases "RetryOnConflict DefaultRetry_Steps (IsConflict lib)
        (add_finalizer_attempt r req) w")
  with a have "w' = w3" by (auto simp: reconcile_unmanaged_def split: option.splits)
  with traced_RetryOnConflict[OF traced_add_finalizer_attempt rt] show ?thesis by simp
qed

lemma traced_reconcile_active:
  "reconcile_active lib r req route w = (res, w') \<Longrightarrow> traced r w w'"
proof -
  assume a: "reconcile_active lib r req route w = (res, w')"
  let ?prev = "range_of (read_managedHostnames lib route)"
  obtain res1 w1 where d: "delete_removed r (Hostnames route) ?prev w = (res1, w1)"
    by (cases "delete_removed r (Hostnames route) ?prev w")
  note t1 = traced_delete_removed[OF d]
  show ?thesis
  proof (cases res1)
    case (Some e)
    with a d have "w' = w1" by (simp add: reconcile_active_def Let_def)
    with t1 show ?thesis by simp
  next
    case None
    obtain res2 w2 where s: "sync_hostnames r (Hostnames route) w1 = (res2, w2)"
      by (cases "sync_hostnames r (Hostnames route) w1")
    note t2 = traced_trans[OF t1 traced_sync_hostnames[OF s]]
    show ?thesis
    proof (cases res2)
      case (Some e)
      with a d None s have "w' = w2" by (simp add: reconcile_active_def Let_def)
      with t2 show ?thesis by simp
    next
      case n2: None
      show ?thesis
      proof (cases "DeepEqual (read_managedHostnames lib route) (Hostnames route)")
        case True
        with a d None s n2 have "w' = w2" by (simp add: reconcile_active_def Let_def)
        with t2 show ?thesis by simp
      next
        case False
        obtain res3 w3 where rt: "RetryOnConflict DefaultRetry_Steps (IsConflict lib)
              (update_annotation_attempt lib r req (Hostnames route)) w2 = (res3, w3)"
          by (cases "RetryOnConflict DefaultRetry_Steps (IsConflict lib)
              (update_annotation_attempt lib r req (Hostnames route)) w2")
        with a d None s n2 False have "w' = w3"
          by (auto simp: reconcile_active_def Let_def split: option.splits)
        with traced_trans[OF t2 traced_RetryOnConflict[OF traced_update_annotation_attempt rt]]
        show ?thesis by simp
      qed
    qed
  qed
qed

lemma traced_Reconcile: "traced r w (snd (Reconcile lib r req w))"
proof -
  obtain gres w0 where g: "do_Get r req w = (gres, w0)" by (cases "do_Get r req w")
  note t0 = traced_do_Get[OF g]
  show ?thesis
  proof (cases gres)
    case (Inl e)
    with g t0 show ?thesis by (simp add: Reconcile_def)
  next
    case (Inr route)
    show ?thesis
    proof (cases "\<not> IsZero (DeletionTimestamp route)")
      case True
      obtain res w' where x: "reconcile_deleting lib r req route w0 = (res, w')"
        by (cases "reconcile_deleting lib r req route w0")
      with g Inr True traced_trans[OF t0 traced_reconcile_deleting[OF x]]
      show ?thesis by (simp add: Reconcile_def)
    next
      case False
      note nd = False
      show ?thesis
      proof (cases "ContainsFinalizer route finalizerName")
        case False
        obtain res w' where x: "reconcile_unmanaged lib r req w0 = (res, w')"
          by (cases "reconcile_unmanaged lib r req w0")
        with g Inr nd False traced_trans[OF t0 traced_reconcile_unmanaged[OF x]]
        show ?thesis by (simp add: Reconcile_def)
      next
        case True
        obtain res w' where x: "reconcile_active lib r req route w0 = (res, w')"
          by (cases "reconcile_active lib r req route w0")
        with g Inr nd True traced_trans[OF t0 traced_reconcile_active[OF x]]
        show ?thesis by (simp add: Reconcile_def)
      qed
    qed
  qed
qed

lemma Reconcile_replay:
  "replay r (dns_state w, api_state w) (pass_calls lib r req w) =
     Some (dns_state (snd (Reconcile lib r req w)), api_state (snd (Reconcile lib r req w)))"
  using traced_Reconcile[of r w lib req] by (auto simp: traced_def pass_calls_def)

lemma deletion_pass_persisted:
  assumes del: "deleting r req w route"
    and fin: "ContainsFinalizer route finalizerName"
    and ok: "fst (Reconcile lib r req w) = None"
  shows "\<exists>k fresh. APIReader_Get r req k = Inr fresh \<and>
           Client_Update r (RemoveFinalizer fresh finalizerName) k =
             (None, api_state (snd (Reconcile lib r req w)))"
proof -
  let ?w0 = "w\<lparr>calls := calls w @ [(CallGet req, True)]\<rparr>"
  obtain res1 w1 where d: "delete_hostnames r (Hostnames route) ?w0 = (res1, w1)"
    by (cases "delete_hostnames r (Hostnames route) ?w0")
  obtain res3 w3 where rt: "RetryOnConflict DefaultRetry_Steps (IsConflict lib)
        (remove_finalizer_attempt r req) w1 = (res3, w3)"
    by (cases "RetryOnConflict DefaultRetry_Steps (IsConflict lib)
        (remove_finalizer_attempt r req) w1")
  from ok d rt fin have r1: "res1 = None" and r3: "res3 = None"
    and R: "snd (Reconcile lib r req w) = w3"
    by (auto simp: Reconcile_deleting[OF del] reconcile_deleting_def split: option.splits)
  from RetryOnConflict_success[OF rt[unfolded r3]] obtain w2 where
    "remove_finalizer_attempt r req w2 = (None, w3)" by (auto simp: DefaultRetry_Steps_def)
  from remove_finalizer_attempt_success[OF this] R show ?thesis by simp
qed

lemma steady_pass_persisted:
  assumes st: "steady_state r req w route"
    and ok: "fst (Reconcile lib r req w) = None"
    and ne: "read_managedHostnames lib route \<noteq> Some (Hostnames route)"
  shows "\<exists>k fresh. APIReader_Get r req k = Inr fresh \<and>
           Client_Update r
             (fresh\<lparr>Annotations := annotation_set (Annotations fresh) managedHostnamesAnnotation
                                     (json_Marshal lib (Hostnames route))\<rparr>) k =
             (None, api_state (snd (Reconcile lib r req w)))"
proof -
  let ?w0 = "w\<lparr>calls := calls w @ [(CallGet req, True)]\<rparr>"
  let ?prev = "range_of (read_managedHostnames lib route)"
  obtain res1 w1 where d: "delete_removed r (Hostnames route) ?prev ?w0 = (res1, w1)"
    by (cases "delete_removed r (Hostnames route) ?prev ?w0")
  obtain res2 w2 where s: "sync_hostnames r (Hostnames route) w1 = (res2, w2)"
    by (cases "sync_hostnames r (Hostnames route) w1")
  obtain res3 w3 where rt: "RetryOnConflict DefaultRetry_Steps (IsConflict lib)
        (update_annotation_attempt lib r req (Hostnames route)) w2 = (res3, w3)"
    by (cases "RetryOnConflict DefaultRetry_Steps (IsConflict lib)
        (update_annotation_attempt lib r req (Hostnames route)) w2")
  from ok d s rt ne have r3: "res3 = None" and R: "snd (Reconcile lib r req w) = w3"
    by (auto simp: Reconcile_steady[OF st] reconcile_active_def Let_def DeepEqual_def
        split: option.splits)
  from RetryOnConflict_success[OF rt[unfolded r3]] obtain w4 where
    "update_annotation_attempt lib r req (Hostnames route) w4 = (None, w3)"
    by (auto simp: DefaultRetry_Steps_def)
  from update_annotation_attempt_success[OF this] R show ?thesis by simp
qed

lemma missing_annotation_differs:
  "annotation_get (Annotations route) managedHostnamesAnnotation = None \<Longrightarrow>
     read_managedHostnames lib route \<noteq> Some (Hostnames route)"
  by (simp add: read_managedHostnames_def)


subsection \<open>The deletion pass\<close>

lemma deletion_calls:
  assumes del: "deleting r req w route"
  shows "(ContainsFinalizer route finalizerName \<longrightarrow>
            (\<exists>n rest. n \<le> length (Hostnames route) \<and>
               pass_calls lib r req w =
                 (CallGet req, True) # map delete_ok (take n (Hostnames route)) @ rest \<and>
               (if n < length (Hostnames route)
                then rest = [delete_failed (Hostnames route ! n)] \<and>
                     fst (Reconcile lib r req w) \<noteq> None \<and>
                     api_state (snd (Reconcile lib r req w)) = api_state w
                else list_all (store_event (\<lambda>rt. \<not> ContainsFinalizer rt finalizerName)) rest \<and>
                     (fst (Reconcile lib r req w) = None \<longrightarrow>
                        rest \<noteq> [] \<and> good_write (last rest))))) \<and>
         (\<not> ContainsFinalizer route finalizerName \<longrightarrow>
            fst (Reconcile lib r req w) = None \<and>
            pass_calls lib r req w = [(CallGet req, True)] \<and>
            api_state (snd (Reconcile lib r req w)) = api_state w \<and>
            dns_state (snd (Reconcile lib r req w)) = dns_state w)"
proof (cases "ContainsFinalizer route finalizerName")
  case False
  then show ?thesis
    by (simp add: Reconcile_deleting[OF del] reconcile_deleting_def pass_calls_def)
next
  case True
  let ?w0 = "w\<lparr>calls := calls w @ [(CallGet req, True)]\<rparr>"
  let ?hs = "Hostnames route"
  obtain res1 w1 where d: "delete_hostnames r ?hs ?w0 = (res1, w1)"
    by (cases "delete_hostnames r ?hs ?w0")
  show ?thesis
  proof (cases res1)
    case (Some e)
    with d True have R: "Reconcile lib r req w = (Some e, w1)"
      by (simp add: Reconcile_deleting[OF del] reconcile_deleting_def)
    from delete_hostnames_Some[OF d[unfolded Some]] obtain n where
      n: "n < length ?hs" and a: "api_state w1 = api_state w" and
      c: "calls w1 = calls w @ (CallGet req, True) # map delete_ok (take n ?hs) @
            [delete_failed (?hs ! n)]" by auto
    have "n \<le> length ?hs \<and>
          pass_calls lib r req w =
            (CallGet req, True) # map delete_ok (take n ?hs) @ [delete_failed (?hs ! n)] \<and>
          (if n < length ?hs
           then [delete_failed (?hs ! n)] = [delete_failed (?hs ! n)] \<and>
                fst (Reconcile lib r req w) \<noteq> None \<and>
                api_state (snd (Reconcile lib r req w)) = api_state w
           else list_all (store_event (\<lambda>rt. \<not> ContainsFinalizer rt finalizerName))
                  [delete_failed (?hs ! n)] \<and>
                (fst (Reconcile lib r req w) = None \<longrightarrow>
                   [delete_failed (?hs ! n)] \<noteq> [] \<and> good_write (last [delete_failed (?hs ! n)])))"
      using n a c R by (simp add: pass_calls_def)
    with True show ?thesis by blast
  next
    case None
    from delete_hostnames_None[OF d[unfolded None]] have
      a1: "api_state w1 = api_state w" and
      c1: "calls w1 = calls w @ (CallGet req, True) # map delete_ok ?hs" by auto
    obtain res3 w3 where rt: "RetryOnConflict DefaultRetry_Steps (IsConflict lib)
          (remove_finalizer_attempt r req) w1 = (res3, w3)"
      by (cases "RetryOnConflict DefaultRetry_Steps (IsConflict lib)
          (remove_finalizer_attempt r req) w1")
    from retry_remove_finalizer[OF rt] obtain ws where
      c3: "calls w3 = calls w1 @ ws" and
      st: "list_all (store_event (\<lambda>rt. \<not> ContainsFinalizer rt finalizerName)) ws" and
      gw: "res3 = None \<and> 0 < DefaultRetry_Steps \<longrightarrow> ws \<noteq> [] \<and> good_write (last ws)"
      by blast
    from d None True rt have R: "snd (Reconcile lib r req w) = w3"
        "(fst (Reconcile lib r req w) = None) = (res3 = None)"
      by (auto simp: Reconcile_deleting[OF del] reconcile_deleting_def split: option.splits)
    have "length ?hs \<le> length ?hs \<and>
          pass_calls lib r req w =
            (CallGet req, True) # map delete_ok (take (length ?hs) ?hs) @ ws \<and>
          (if length ?hs < length ?hs
           then ws = [delete_failed (?hs ! length ?hs)] \<and>
                fst (Reconcile lib r req w) \<noteq> None \<and>
                api_state (snd (Reconcile lib r req w)) = api_state w
           else list_all (store_event (\<lambda>rt. \<not> ContainsFinalizer rt finalizerName)) ws \<and>
                (fst (Reconcile lib r req w) = None \<longrightarrow> ws \<noteq> [] \<and> good_write (last ws)))"
      using c1 c3 st gw R by (simp add: pass_calls_def DefaultRetry_Steps_def)
    with True show ?thesis by blast
  qed
qed

text \<open>
  C2. In a pass on a resource that carries a deletion marker: if the finalizer is
  present, the pass reads the resource and then calls \<open>Delete(hostname, "A")\<close> for the
  declared hostnames in their declared order. Either one of these calls fails: it is
  the last call of the pass, the pass returns an error, and nothing is written to the
  resource (the finalizer stays). Or all of them succeed, for every declared hostname:
  only then does the pass read the resource again and write it without the finalizer,
  retrying on conflict; every write of the pass is of a route without the finalizer,
  and when the pass succeeds its last call is such a write that succeeded: the state of
  the resource store after the pass is the one left by a successful \<open>Update\<close> of the
  route just read from the store, with the finalizer removed. If the finalizer is
  absent, the pass makes no call on the provider and no write, leaves both states as
  they are, and succeeds. In every case the states of the DNS backend and of the
  resource store after the pass are the ones obtained by applying the recorded calls,
  in their order, to the provider and to the store.
\<close>

theorem deletion_pass:
  assumes del: "deleting r req w route"
  shows "(ContainsFinalizer route finalizerName \<longrightarrow>
            (\<exists>n rest. n \<le> length (Hostnames route) \<and>
               pass_calls lib r req w =
                 (CallGet req, True) # map delete_ok (take n (Hostnames route)) @ rest \<and>
               (if n < length (Hostnames route)
                then rest = [delete_failed (Hostnames route ! n)] \<and>
                     fst (Reconcile lib r req w) \<noteq> None \<and>
                     api_state (snd (Reconcile lib r req w)) = api_state w
                else list_all (store_event (\<lambda>rt. \<not> ContainsFinalizer rt finalizerName)) rest \<and>
                     (fst (Reconcile lib r req w) = None \<longrightarrow>
                        rest \<noteq> [] \<and> good_write (last rest))))) \<and>
         (\<not> ContainsFinalizer route finalizerName \<longrightarrow>
            fst (Reconcile lib r req w) = None \<and>
            pass_calls lib r req w = [(CallGet req, True)] \<and>
            api_state (snd (Reconcile lib r req w)) = api_state w \<and>
            dns_state (snd (Reconcile lib r req w)) = dns_state w) \<and>
         (ContainsFinalizer route finalizerName \<and> fst (Reconcile lib r req w) = None \<longrightarrow>
            (\<exists>k fresh. APIReader_Get r req k = Inr fresh \<and>
               Client_Update r (RemoveFinalizer fresh finalizerName) k =
                 (None, api_state (snd (Reconcile lib r req w))))) \<and>
         replay r (dns_state w, api_state w) (pass_calls lib r req w) =
           Some (dns_state (snd (Reconcile lib r req w)),
                 api_state (snd (Reconcile lib r req w)))"
  using deletion_calls[OF del, of lib] deletion_pass_persisted[OF del, of lib]
    Reconcile_replay[of r w lib req]
  by blast

theorem deletion_pass_witness:
  "deleting mock_reconciler ''default/r'' (start new_mock example_deleting) example_deleting \<and>
   ContainsFinalizer example_deleting finalizerName \<and>
   pass_calls example_Lib mock_reconciler ''default/r'' (start new_mock example_deleting) =
     [(CallGet ''default/r'', True),
      delete_ok ''app.my-domain1.com'', delete_ok ''api.my-domain2.it'',
      (CallGet ''default/r'', True),
      (CallWrite (deleted_route [] [''app.my-domain1.com'', ''api.my-domain2.it'']), True)] \<and>
   fst (Reconcile example_Lib mock_reconciler ''default/r'' (start new_mock example_deleting))
     = None \<and>
   api_state (snd (Reconcile example_Lib mock_reconciler ''default/r''
                     (start new_mock example_deleting))) =
     deleted_route [] [''app.my-domain1.com'', ''api.my-domain2.it''] \<and>
   deletedHosts (dns_state (snd (Reconcile example_Lib mock_reconciler ''default/r''
                     (start new_mock example_deleting)))) =
     [''app.my-domain1.com'', ''api.my-domain2.it''] \<and>
   (\<exists>k fresh. APIReader_Get mock_reconciler ''default/r'' k = Inr fresh \<and>
      Client_Update mock_reconciler (RemoveFinalizer fresh finalizerName) k =
        (None, api_state (snd (Reconcile example_Lib mock_reconciler ''default/r''
                                 (start new_mock example_deleting))))) \<and>
   deleting mock_reconciler ''default/r'' (start new_mock example_deleting_unmanaged)
     example_deleting_unmanaged \<and>
   fst (Reconcile example_Lib mock_reconciler ''default/r''
          (start new_mock example_deleting_unmanaged)) = None \<and>
   pass_calls example_Lib mock_reconciler ''default/r''
     (start new_mock example_deleting_unmanaged) = [(CallGet ''default/r'', True)]"
proof -
  have d1: "deleting mock_reconciler ''default/r'' (start new_mock example_deleting)
              example_deleting" by code_simp
  have f1: "ContainsFinalizer example_deleting finalizerName" by code_simp
  have c1: "pass_calls example_Lib mock_reconciler ''default/r'' (start new_mock example_deleting) =
     [(CallGet ''default/r'', True),
      delete_ok ''app.my-domain1.com'', delete_ok ''api.my-domain2.it'',
      (CallGet ''default/r'', True),
      (CallWrite (deleted_route [] [''app.my-domain1.com'', ''api.my-domain2.it'']), True)]"
    by code_simp
  have o1: "fst (Reconcile example_Lib mock_reconciler ''default/r''
                   (start new_mock example_deleting)) = None" by code_simp
  have a1: "api_state (snd (Reconcile example_Lib mock_reconciler ''default/r''
                     (start new_mock example_deleting))) =
     deleted_route [] [''app.my-domain1.com'', ''api.my-domain2.it'']" by code_simp
  have h1: "deletedHosts (dns_state (snd (Reconcile example_Lib mock_reconciler ''default/r''
                     (start new_mock example_deleting)))) =
     [''app.my-domain1.com'', ''api.my-domain2.it'']" by code_simp
  from deletion_pass[OF d1, of example_Lib, THEN conjunct2, THEN conjunct2, THEN conjunct1]
    f1 o1
  have p1: "\<exists>k fresh. APIReader_Get mock_reconciler ''default/r'' k = Inr fresh \<and>
      Client_Update mock_reconciler (RemoveFinalizer fresh finalizerName) k =
        (None, api_state (snd (Reconcile example_Lib mock_reconciler ''default/r''
                                 (start new_mock example_deleting))))" by blast
  have d2: "deleting mock_reconciler ''default/r'' (start new_mock example_deleting_unmanaged)
              example_deleting_unmanaged" by code_simp
  have f2: "\<not> ContainsFinalizer example_deleting_unmanaged finalizerName" by code_simp
  from deletion_pass[OF d2, of example_Lib, THEN conjunct2, THEN conjunct1] f2
  have "fst (Reconcile example_Lib mock_reconciler ''default/r''
          (start new_mock example_deleting_unmanaged)) = None \<and>
        pass_calls example_Lib mock_reconciler ''default/r''
          (start new_mock example_deleting_unmanaged) = [(CallGet ''default/r'', True)]"
    by blast
  with d1 f1 c1 o1 a1 h1 p1 d2 show ?thesis by blast
qed


subsection \<open>The steady-state pass\<close>

text \<open>
  C3 (as amended). In every steady-state pass, the \<open>Delete\<close> calls issued are calls
  \<open>Delete(h, "A")\<close> for the hostnames \<open>h\<close> of the previously persisted list that are absent
  from the currently declared list, taken in the order of the previous list (with their
  repetitions), up to and including the first of these calls that fails: the calls
  before it succeeded, a failing call is the last \<open>Delete\<close> of the pass and makes the
  pass return an error, and when none fails there is one call for every such entry.
\<close>

theorem steady_state_delete_calls:
  assumes "steady_state r req w route"
  shows "\<exists>n. n \<le> length (removed_of lib route) \<and>
           filter (\<lambda>e. is_delete (fst e)) (pass_calls lib r req w) =
             map delete_ok (take n (removed_of lib route)) @
             (if n < length (removed_of lib route)
              then [delete_failed (removed_of lib route ! n)] else []) \<and>
           (n < length (removed_of lib route) \<longrightarrow> fst (Reconcile lib r req w) \<noteq> None)"
  using assms by (rule steady_delete_events)

theorem steady_state_delete_calls_witness:
  "steady_state mock_reconciler ''default/r'' (start new_mock example_diff) example_diff \<and>
   removed_of example_Lib example_diff = [''h1'', ''h3''] \<and>
   filter (\<lambda>e. is_delete (fst e))
     (pass_calls example_Lib mock_reconciler ''default/r'' (start new_mock example_diff)) =
     [delete_ok ''h1'', delete_ok ''h3''] \<and>
   (\<exists>n. n \<le> length (removed_of example_Lib example_diff) \<and>
      filter (\<lambda>e. is_delete (fst e))
        (pass_calls example_Lib mock_reconciler ''default/r'' (start new_mock example_diff)) =
        map delete_ok (take n (removed_of example_Lib example_diff)) @
        (if n < length (removed_of example_Lib example_diff)
         then [delete_failed (removed_of example_Lib example_diff ! n)] else []) \<and>
      (n < length (removed_of example_Lib example_diff) \<longrightarrow>
         fst (Reconcile example_Lib mock_reconciler ''default/r'' (start new_mock example_diff))
           \<noteq> None))"
proof -
  have s: "steady_state mock_reconciler ''default/r'' (start new_mock example_diff) example_diff"
    by code_simp
  have r: "removed_of example_Lib example_diff = [''h1'', ''h3'']" by code_simp
  have f: "filter (\<lambda>e. is_delete (fst e))
     (pass_calls example_Lib mock_reconciler ''default/r'' (start new_mock example_diff)) =
     [delete_ok ''h1'', delete_ok ''h3'']" by code_simp
  from s r f steady_state_delete_calls[OF s, of example_Lib] show ?thesis by blast
qed

text \<open>
  C3 (as stated) fails in a pass that a failing \<open>Delete\<close> aborts: with the previous list
  \<open>h1, h2\<close>, no hostname declared and a backend that cannot be reached, \<open>Delete\<close> is
  issued for \<open>h1\<close> only, although \<open>h2\<close> too is in the previous list and absent from the
  current one.
\<close>

theorem steady_state_delete_calls_counterexample:
  "steady_state unreachable_reconciler ''default/r'' (start () example_removed_two)
     example_removed_two \<and>
   range_of (read_managedHostnames example_Lib example_removed_two) = [''h1'', ''h2''] \<and>
   Hostnames example_removed_two = [] \<and>
   deleted_hostnames
     (pass_calls example_Lib unreachable_reconciler ''default/r''
        (start () example_removed_two)) = [''h1'']"
  by code_simp

text \<open>
  C4. In every steady-state pass, every \<open>Delete\<close> call is issued before any \<open>Create\<close>,
  \<open>Update\<close> or \<open>Upsert\<close> call: in the sequence of the calls of the pass, the position of
  a \<open>Delete\<close> is smaller than the position of a \<open>Create\<close>, \<open>Update\<close> or \<open>Upsert\<close>.
\<close>

theorem deletes_before_mutations:
  assumes st: "steady_state r req w route"
    and i: "i < length (pass_calls lib r req w)"
    and j: "j < length (pass_calls lib r req w)"
    and d: "is_delete (fst (pass_calls lib r req w ! i))"
    and m: "is_mutation (fst (pass_calls lib r req w ! j))"
  shows "i < j"
proof -
  from steady_split[OF st, of lib] obtain ds cs where
    "pass_calls lib r req w = ds @ cs" "list_all (\<lambda>e. \<not> is_mutation (fst e)) ds"
    "list_all (\<lambda>e. \<not> is_delete (fst e)) cs" by blast
  from split_order[OF this i j d m] show "i < j" .
qed

theorem deletes_before_mutations_witness:
  "steady_state mock_reconciler ''default/r'' (start new_mock example_moved) example_moved \<and>
   pass_calls example_Lib mock_reconciler ''default/r'' (start new_mock example_moved) ! 1 =
     delete_ok ''old.my-domain1.com'' \<and>
   pass_calls example_Lib mock_reconciler ''default/r'' (start new_mock example_moved) ! 3 =
     (CallCreate (managed_record ''app.my-domain1.com'' ''10.0.8.100''), True) \<and>
   (1::nat) < 3"
proof -
  let ?tr = "pass_calls example_Lib mock_reconciler ''default/r'' (start new_mock example_moved)"
  have s: "steady_state mock_reconciler ''default/r'' (start new_mock example_moved) example_moved"
    by code_simp
  have i: "1 < length ?tr" and j: "3 < length ?tr" by code_simp+
  have d: "?tr ! 1 = delete_ok ''old.my-domain1.com''" by code_simp
  have m: "?tr ! 3 = (CallCreate (managed_record ''app.my-domain1.com'' ''10.0.8.100''), True)"
    by code_simp
  have d': "is_delete (fst (?tr ! 1))" by code_simp
  have m': "is_mutation (fst (?tr ! 3))" by code_simp
  from deletes_before_mutations[OF s i j d' m'] s d m show ?thesis by blast
qed

lemma managed_write_calls:
  assumes st: "steady_state r req w route" and ok: "fst (Reconcile lib r req w) = None"
  shows "list_ex (\<lambda>e. is_write (fst e)) (pass_calls lib r req w) =
           (read_managedHostnames lib route \<noteq> Some (Hostnames route)) \<and>
         (read_managedHostnames lib route = Some (Hostnames route) \<longrightarrow>
            api_state (snd (Reconcile lib r req w)) = api_state w) \<and>
         (read_managedHostnames lib route \<noteq> Some (Hostnames route) \<longrightarrow>
            (\<exists>rt. last (pass_calls lib r req w) = (CallWrite rt, True) \<and>
                  carries_managed lib (Hostnames route) rt))"
  using steady_pass_shape[OF st, of lib]
proof (elim disjE exE conjE)
  fix n assume "fst (Reconcile lib r req w) \<noteq> None"
  with ok show ?thesis by simp
next
  fix cs assume "fst (Reconcile lib r req w) \<noteq> None"
  with ok show ?thesis by simp
next
  fix cs ws
  assume pc: "pass_calls lib r req w =
       (CallGet req, True) # map delete_ok (removed_of lib route) @ cs @ ws"
    and sy: "list_all (\<lambda>e. is_sync (fst e)) cs"
    and stw: "list_all (store_event (carries_managed lib (Hostnames route))) ws"
    and eq: "read_managedHostnames lib route = Some (Hostnames route) \<longrightarrow>
               ws = [] \<and> fst (Reconcile lib r req w) = None \<and>
               api_state (snd (Reconcile lib r req w)) = api_state w"
    and ne: "read_managedHostnames lib route \<noteq> Some (Hostnames route) \<and>
               fst (Reconcile lib r req w) = None \<longrightarrow> ws \<noteq> [] \<and> good_write (last ws)"
  show ?thesis
  proof (cases "read_managedHostnames lib route = Some (Hostnames route)")
    case True
    with eq pc sy show ?thesis
      by (simp add: not_write_delete_ok not_write_sync)
  next
    case False
    with ne ok have w: "ws \<noteq> []" "good_write (last ws)" by auto
    from good_write_last[OF stw w] obtain rt where
      l: "last ws = (CallWrite rt, True)" and c: "carries_managed lib (Hostnames route) rt"
      by blast
    have "last ws \<in> set ws" using w by simp
    with l have "list_ex (\<lambda>e. is_write (fst e)) ws" by (force simp: list_ex_iff)
    with False pc w l c show ?thesis by auto
  qed
qed

text \<open>
  C5 (as amended). At the end of every successful steady-state pass, the managed-hostname
  state has been written back to the resource if and only if the previous list, which
  is the slice that decoding the annotation leaves in \<open>managedHostnames\<close> (the \<open>nil\<close> slice
  when the annotation is missing), is not identical to the currently declared list: a
  slice that is not \<open>nil\<close> and has the same hostnames in the same order with the same
  repetitions. When the two are identical the pass performs no write and leaves the
  resource store as it is. Otherwise, and so whenever the annotation is missing, the
  last call of the pass is a successful write of a route that carries the current list,
  and the state of the resource store after the pass is the one left by a successful
  \<open>Update\<close> of the route just read from the store, with its annotation set to the
  current list. In both cases the states after the pass are the ones obtained by
  applying the recorded calls, in their order, to the provider and to the store.
\<close>

theorem managed_write_iff:
  assumes st: "steady_state r req w route" and ok: "fst (Reconcile lib r req w) = None"
  shows "list_ex (\<lambda>e. is_write (fst e)) (pass_calls lib r req w) =
           (read_managedHostnames lib route \<noteq> Some (Hostnames route)) \<and>
         (read_managedHostnames lib route = Some (Hostnames route) \<longrightarrow>
            api_state (snd (Reconcile lib r req w)) = api_state w) \<and>
         (read_managedHostnames lib route \<noteq> Some (Hostnames route) \<longrightarrow>
            (\<exists>rt. last (pass_calls lib r req w) = (CallWrite rt, True) \<and>
                  carries_managed lib (Hostnames route) rt)) \<and>
         (read_managedHostnames lib route \<noteq> Some (Hostnames route) \<longrightarrow>
            (\<exists>k fresh. APIReader_Get r req k = Inr fresh \<and>
               Client_Update r
                 (fresh\<lparr>Annotations :=
                    annotation_set (Annotations fresh) managedHostnamesAnnotation
                      (json_Marshal lib (Hostnames route))\<rparr>) k =
                 (None, api_state (snd (Reconcile lib r req w))))) \<and>
         (annotation_get (Annotations route) managedHostnamesAnnotation = None \<longrightarrow>
            list_ex (\<lambda>e. is_write (fst e)) (pass_calls lib r req w)) \<and>
         replay r (dns_state w, api_state w) (pass_calls lib r req w) =
           Some (dns_state (snd (Reconcile lib r req w)),
                 api_state (snd (Reconcile lib r req w)))"
proof -
  note calls = managed_write_calls[OF st ok]
  have persisted: "\<exists>k fresh. APIReader_Get r req k = Inr fresh \<and>
               Client_Update r
                 (fresh\<lparr>Annotations :=
                    annotation_set (Annotations fresh) managedHostnamesAnnotation
                      (json_Marshal lib (Hostnames route))\<rparr>) k =
                 (None, api_state (snd (Reconcile lib r req w)))"
    if "read_managedHostnames lib route \<noteq> Some (Hostnames route)"
    by (rule steady_pass_persisted[OF st ok that])
  have missing: "list_ex (\<lambda>e. is_write (fst e)) (pass_calls lib r req w)"
    if "annotation_get (Annotations route) managedHostnamesAnnotation = None"
    using calls missing_annotation_differs[OF that, of lib] by simp
  from calls persisted missing Reconcile_replay[of r w lib req] show ?thesis by blast
qed

theorem managed_write_iff_witness:
  "steady_state mock_reconciler ''default/r'' (start new_mock example_same) example_same \<and>
   fst (Reconcile example_Lib mock_reconciler ''default/r'' (start new_mock example_same)) = None \<and>
   read_managedHostnames example_Lib example_same = Some (Hostnames example_same) \<and>
   list_ex (\<lambda>e. is_write (fst e))
     (pass_calls example_Lib mock_reconciler ''default/r'' (start new_mock example_same)) = False \<and>
   steady_state mock_reconciler ''default/r'' (start new_mock example_moved) example_moved \<and>
   fst (Reconcile example_Lib mock_reconciler ''default/r'' (start new_mock example_moved)) = None \<and>
   list_ex (\<lambda>e. is_write (fst e))
     (pass_calls example_Lib mock_reconciler ''default/r'' (start new_mock example_moved)) = True \<and>
   api_state (snd (Reconcile example_Lib mock_reconciler ''default/r''
                     (start new_mock example_moved))) =
     active_route (Some ''[app.my-domain1.com,x.nowhere.org]'')
       [''app.my-domain1.com'', ''x.nowhere.org''] \<and>
   steady_state mock_reconciler ''default/r'' (start new_mock example_first) example_first \<and>
   annotation_get (Annotations example_first) managedHostnamesAnnotation = None \<and>
   Hostnames example_first = [] \<and>
   list_ex (\<lambda>e. is_write (fst e))
     (pass_calls example_Lib mock_reconciler ''default/r'' (start new_mock example_first))"
proof -
  have s1: "steady_state mock_reconciler ''default/r'' (start new_mock example_same) example_same"
    and o1: "fst (Reconcile example_Lib mock_reconciler ''default/r''
                    (start new_mock example_same)) = None"
    and e1: "read_managedHostnames example_Lib example_same = Some (Hostnames example_same)"
    by code_simp+
  have s2: "steady_state mock_reconciler ''default/r'' (start new_mock example_moved) example_moved"
    and o2: "fst (Reconcile example_Lib mock_reconciler ''default/r''
                    (start new_mock example_moved)) = None"
    and e2: "read_managedHostnames example_Lib example_moved \<noteq> Some (Hostnames example_moved)"
    and a2: "api_state (snd (Reconcile example_Lib mock_reconciler ''default/r''
                     (start new_mock example_moved))) =
       active_route (Some ''[app.my-domain1.com,x.nowhere.org]'')
         [''app.my-domain1.com'', ''x.nowhere.org'']"
    by code_simp+
  have s3: "steady_state mock_reconciler ''default/r'' (start new_mock example_first) example_first"
    and o3: "fst (Reconcile example_Lib mock_reconciler ''default/r''
                    (start new_mock example_first)) = None"
    and e3: "annotation_get (Annotations example_first) managedHostnamesAnnotation = None"
    and h3: "Hostnames example_first = []"
    by code_simp+
  from managed_write_iff[OF s1 o1, THEN conjunct1] e1
  have w1: "list_ex (\<lambda>e. is_write (fst e))
     (pass_calls example_Lib mock_reconciler ''default/r'' (start new_mock example_same)) = False"
    by simp
  from managed_write_iff[OF s2 o2, THEN conjunct1] e2
  have w2: "list_ex (\<lambda>e. is_write (fst e))
     (pass_calls example_Lib mock_reconciler ''default/r'' (start new_mock example_moved)) = True"
    by simp
  from managed_write_iff[OF s3 o3, THEN conjunct2, THEN conjunct2, THEN conjunct2,
      THEN conjunct2, THEN conjunct1] e3
  have w3: "list_ex (\<lambda>e. is_write (fst e))
     (pass_calls example_Lib mock_reconciler ''default/r'' (start new_mock example_first))"
    by blast
  from s1 o1 e1 w1 s2 o2 w2 a2 s3 e3 h3 w3 show ?thesis by blast
qed

text \<open>
  C5 (as stated) fails when the two lists are equal as sets and differ as sequences:
  with the previous list \<open>a.x, b.x\<close> and the declared list \<open>b.x, a.x\<close> the pass succeeds
  and writes the annotation.
\<close>

theorem managed_write_iff_counterexample:
  "steady_state mock_reconciler ''default/r'' (start new_mock example_reordered)
     example_reordered \<and>
   fst (Reconcile example_Lib mock_reconciler ''default/r'' (start new_mock example_reordered))
     = None \<and>
   set (range_of (read_managedHostnames example_Lib example_reordered)) =
     set (Hostnames example_reordered) \<and>
   list_ex (\<lambda>e. is_write (fst e))
     (pass_calls example_Lib mock_reconciler ''default/r'' (start new_mock example_reordered))"
  by code_simp

text \<open>
  C6. In every steady-state pass, if any call on the provider fails (a \<open>Delete\<close> of a
  removed hostname, an \<open>Exists\<close>, a \<open>Create\<close> or an \<open>Upsert\<close>; the reconciler makes no
  \<open>Update\<close> call of its own, an \<open>Update\<close> is made inside the \<open>Upsert\<close> of the provider),
  then that call is the last call of the pass, the pass returns an error, it has written
  nothing to the resource, and the state of the resource store is the one the pass
  started in.
\<close>

theorem provider_failure_aborts:
  assumes st: "steady_state r req w route"
    and failure: "list_ex (\<lambda>e. is_dns (fst e) \<and> \<not> snd e) (pass_calls lib r req w)"
  shows "fst (Reconcile lib r req w) \<noteq> None \<and>
         api_state (snd (Reconcile lib r req w)) = api_state w \<and>
         \<not> list_ex (\<lambda>e. is_write (fst e)) (pass_calls lib r req w) \<and>
         is_dns (fst (last (pass_calls lib r req w))) \<and>
         \<not> snd (last (pass_calls lib r req w))"
  using steady_pass_shape[OF st, of lib]
proof (elim disjE exE conjE)
  fix n
  assume "fst (Reconcile lib r req w) \<noteq> None"
    "api_state (snd (Reconcile lib r req w)) = api_state w"
    "pass_calls lib r req w =
       (CallGet req, True) # map delete_ok (take n (removed_of lib route)) @
       [delete_failed (removed_of lib route ! n)]"
  then show ?thesis
    by (simp add: not_write_delete_ok delete_failed_def)
next
  fix cs
  assume a: "fst (Reconcile lib r req w) \<noteq> None"
    "api_state (snd (Reconcile lib r req w)) = api_state w"
    "pass_calls lib r req w = (CallGet req, True) # map delete_ok (removed_of lib route) @ cs"
    "list_all (\<lambda>e. is_sync (fst e)) cs" "stopped_at_failure cs"
  then have "cs \<noteq> []" "\<not> snd (last cs)" by (simp_all add: stopped_at_failure_def)
  with a sync_last_dns[OF a(4)] show ?thesis
    by (simp add: not_write_delete_ok not_write_sync)
next
  fix cs ws
  assume "pass_calls lib r req w =
       (CallGet req, True) # map delete_ok (removed_of lib route) @ cs @ ws"
    "all_ok cs" "list_all (store_event (carries_managed lib (Hostnames route))) ws"
  with failure show ?thesis
    by (simp add: delete_ok_no_failure all_ok_no_failure store_no_dns)
qed

theorem provider_failure_aborts_witness:
  "steady_state unreachable_reconciler ''default/r'' (start () example_moved) example_moved \<and>
   pass_calls example_Lib unreachable_reconciler ''default/r'' (start () example_moved) =
     [(CallGet ''default/r'', True), delete_failed ''old.my-domain1.com''] \<and>
   fst (Reconcile example_Lib unreachable_reconciler ''default/r'' (start () example_moved))
     \<noteq> None \<and>
   api_state (snd (Reconcile example_Lib unreachable_reconciler ''default/r''
                     (start () example_moved))) = example_moved"
proof -
  have s: "steady_state unreachable_reconciler ''default/r'' (start () example_moved)
             example_moved" by code_simp
  have c: "pass_calls example_Lib unreachable_reconciler ''default/r'' (start () example_moved) =
     [(CallGet ''default/r'', True), delete_failed ''old.my-domain1.com'']" by code_simp
  have f: "list_ex (\<lambda>e. is_dns (fst e) \<and> \<not> snd e)
     (pass_calls example_Lib unreachable_reconciler ''default/r'' (start () example_moved))"
    by code_simp
  have a: "api_state (start () example_moved) = example_moved" by (simp add: start_def)
  from provider_failure_aborts[OF s f] s c a show ?thesis by simp
qed

text \<open>
  C9 (as amended). The removal diff treats the previously persisted list as a sequence,
  not as a set: in a steady-state pass in which no \<open>Delete\<close> fails, a hostname that is
  absent from the current list gets as many \<open>Delete\<close> calls as it has occurrences in
  the previous list, and a hostname of the current list gets none.
\<close>

theorem deletes_keep_duplicates:
  assumes st: "steady_state r req w route"
    and nofail: "list_all snd (filter (\<lambda>e. is_delete (fst e)) (pass_calls lib r req w))"
  shows "count_list (deleted_hostnames (pass_calls lib r req w)) h =
           (if h \<in> set (Hostnames route) then 0
            else count_list (range_of (read_managedHostnames lib route)) h)"
proof -
  from steady_delete_events[OF st, of lib] obtain n where
    n: "n \<le> length (removed_of lib route)" and
    f: "filter (\<lambda>e. is_delete (fst e)) (pass_calls lib r req w) =
             map delete_ok (take n (removed_of lib route)) @
             (if n < length (removed_of lib route)
              then [delete_failed (removed_of lib route ! n)] else [])" by blast
  have "\<not> n < length (removed_of lib route)"
  proof
    assume "n < length (removed_of lib route)"
    with f nofail show False by (simp add: delete_failed_def)
  qed
  with n f have "filter (\<lambda>e. is_delete (fst e)) (pass_calls lib r req w) =
      map delete_ok (removed_of lib route)" by simp
  then have "deleted_hostnames (pass_calls lib r req w) = removed_of lib route"
    using deleted_hostnames_filter[of "pass_calls lib r req w"] by (simp add: deleted_hostnames_ok)
  then show ?thesis
    by (simp add: removed_of_def removed_hostnames_def count_list_filter Contains_def)
qed

theorem deletes_keep_duplicates_witness:
  "steady_state mock_reconciler ''default/r'' (start new_mock example_twice_kept)
     example_twice_kept \<and>
   list_all snd (filter (\<lambda>e. is_delete (fst e))
     (pass_calls example_Lib mock_reconciler ''default/r'' (start new_mock example_twice_kept))) \<and>
   count_list (deleted_hostnames
     (pass_calls example_Lib mock_reconciler ''default/r'' (start new_mock example_twice_kept)))
     ''a.x'' = 2 \<and>
   count_list (deleted_hostnames
     (pass_calls example_Lib mock_reconciler ''default/r'' (start new_mock example_twice_kept)))
     ''b.x'' = 0"
proof -
  have s: "steady_state mock_reconciler ''default/r'' (start new_mock example_twice_kept)
     example_twice_kept" by code_simp
  have n: "list_all snd (filter (\<lambda>e. is_delete (fst e))
     (pass_calls example_Lib mock_reconciler ''default/r'' (start new_mock example_twice_kept)))"
    by code_simp
  have a: "(if ''a.x'' \<in> set (Hostnames example_twice_kept) then 0
            else count_list (range_of (read_managedHostnames example_Lib example_twice_kept))
                   ''a.x'') = 2" by code_simp
  have b: "(if ''b.x'' \<in> set (Hostnames example_twice_kept) then 0
            else count_list (range_of (read_managedHostnames example_Lib example_twice_kept))
                   ''b.x'') = 0" by code_simp
  from deletes_keep_duplicates[OF s n, of "''a.x''"] deletes_keep_duplicates[OF s n, of "''b.x''"]
    a b s n show ?thesis by simp
qed

text \<open>
  C9 (as stated) fails: with the previous list \<open>a.x, a.x\<close> and no hostname declared, the
  hostname \<open>a.x\<close>, absent from the current list, gets two \<open>Delete\<close> calls in one pass.
\<close>

theorem deletes_keep_duplicates_counterexample:
  "steady_state mock_reconciler ''default/r'' (start new_mock example_twice) example_twice \<and>
   range_of (read_managedHostnames example_Lib example_twice) = [''a.x'', ''a.x''] \<and>
   Hostnames example_twice = [] \<and>
   filter (\<lambda>e. is_delete (fst e))
     (pass_calls example_Lib mock_reconciler ''default/r'' (start new_mock example_twice)) =
     [delete_ok ''a.x'', delete_ok ''a.x'']"
  by code_simp

end
